theory Spec2Isabelle
  imports Complex_Main "HOL-Library.Word" "HOL-Library.Log_Nat" "HOL-Library.Sublist"
begin

unbundle bit_operations_syntax

section \<open>Strings\<close>

text \<open>
  An ECMAScript string is a sequence of UTF-16 code units, and \<open>length\<close>, \<open>slice\<close>,
  \<open>startsWith\<close>, \<open>includes\<close> and a regular expression without the \<open>u\<close> flag all work on
  code units. A string is therefore a list of 16-bit words; \<open>js\<close> embeds an ASCII literal.
\<close>

type_synonym jsstring = "16 word list"

definition js :: "string \<Rightarrow> jsstring" where
  "js s = map of_char s"

text \<open>Decimal rendering of a non-negative integer, as string concatenation with a number does.\<close>

fun digits :: "nat \<Rightarrow> jsstring" where
  "digits n = (if n < 10 then [of_nat (48 + n)] else digits (n div 10) @ [of_nat (48 + n mod 10)])"

declare digits.simps [simp del]

definition showInt :: "int \<Rightarrow> jsstring" where
  "showInt i = (if i < 0 then 0x2D # digits (nat (- i)) else digits (nat i))"

text \<open>\<open>s.slice(a, b)\<close> and \<open>s.slice(a)\<close> for integer arguments: a negative index counts from
  the end, and both ends are clamped to the string.\<close>

definition sliceIndex :: "nat \<Rightarrow> int \<Rightarrow> nat" where
  "sliceIndex len i = (if i < 0 then nat (max (int len + i) 0) else min (nat i) len)"

definition slice :: "'a list \<Rightarrow> int \<Rightarrow> int \<Rightarrow> 'a list" where
  "slice s a b = (let from = sliceIndex (length s) a; to = sliceIndex (length s) b
                  in take (to - from) (drop from s))"

definition sliceFrom :: "'a list \<Rightarrow> int \<Rightarrow> 'a list" where
  "sliceFrom s a = drop (sliceIndex (length s) a) s"

definition startsWith :: "jsstring \<Rightarrow> jsstring \<Rightarrow> bool" where
  "startsWith s p = (take (length p) s = p)"

definition endsWith :: "jsstring \<Rightarrow> jsstring \<Rightarrow> bool" where
  "endsWith s p = (length p \<le> length s \<and> drop (length s - length p) s = p)"

fun includesStr :: "jsstring \<Rightarrow> jsstring \<Rightarrow> bool" where
  "includesStr [] p = (p = [])"
| "includesStr (c # cs) p = (startsWith (c # cs) p \<or> includesStr cs p)"

section \<open>Messages\<close>

text \<open>
  Modelled from the spec: the \<open>Message\<close> type is imported from
  \<open>~/services/copilot/create-chat-completions\<close>, which is not part of the sources at hand.
  Following section 3 of the specification and the way \<open>handler.ts\<close> reads the fields, a
  message has a role among system, user, assistant and tool; a content that is a string, an
  ordered sequence of typed parts (text or image reference) or absent; optional tool calls,
  each an id with an optional function (name and serialized arguments); and an optional
  \<open>tool_call_id\<close>.
\<close>

datatype role = System | User | Assistant | Tool

datatype part = TextPart jsstring | ImagePart jsstring

datatype content = Str jsstring | Parts "part list" | Null

record func =
  name :: jsstring
  arguments :: jsstring

record tool_call =
  id_tc :: jsstring
  function_tc :: "func option"

record message =
  role :: role
  content :: content
  tool_calls :: "tool_call list option"
  tool_call_id :: "jsstring option"

text \<open>Truthiness of an optional string: present and not empty.\<close>

definition truthy :: "jsstring option \<Rightarrow> bool" where
  "truthy s = (case s of None \<Rightarrow> False | Some t \<Rightarrow> t \<noteq> [])"

text \<open>The list behind \<open>msg.tool_calls\<close>; an absent field behaves as no calls wherever the
  source iterates it behind a truthiness guard.\<close>

definition calls :: "message \<Rightarrow> tool_call list" where
  "calls m = (case tool_calls m of None \<Rightarrow> [] | Some tcs \<Rightarrow> tcs)"

text \<open>The guard \<open>msg.role === "assistant" && msg.tool_calls && msg.tool_calls.length > 0\<close>.\<close>

definition hasToolCalls :: "message \<Rightarrow> bool" where
  "hasToolCalls m = (role m = Assistant \<and> calls m \<noteq> [])"

text \<open>The guard \<open>msg.role === "tool" && msg.tool_call_id\<close>.\<close>

definition isToolResponse :: "message \<Rightarrow> bool" where
  "isToolResponse m = (role m = Tool \<and> truthy (tool_call_id m))"

section \<open>JSON.stringify of a string\<close>

definition hexDigit :: "16 word \<Rightarrow> 16 word" where
  "hexDigit d = (if d < 10 then 48 + d else 87 + d)"

definition unicodeEscape :: "16 word \<Rightarrow> jsstring" where
  "unicodeEscape c =
     [0x5C, 0x75, hexDigit (drop_bit 12 c), hexDigit (drop_bit 8 c AND 15),
      hexDigit (drop_bit 4 c AND 15), hexDigit (c AND 15)]"

definition isLead :: "16 word \<Rightarrow> bool" where
  "isLead c = (0xD800 \<le> c \<and> c \<le> 0xDBFF)"

definition isTrail :: "16 word \<Rightarrow> bool" where
  "isTrail c = (0xDC00 \<le> c \<and> c \<le> 0xDFFF)"

definition quoteUnit :: "16 word \<Rightarrow> jsstring" where
  "quoteUnit c =
     (if c = 0x08 then [0x5C, 0x62]
      else if c = 0x09 then [0x5C, 0x74]
      else if c = 0x0A then [0x5C, 0x6E]
      else if c = 0x0C then [0x5C, 0x66]
      else if c = 0x0D then [0x5C, 0x72]
      else if c = 0x22 then [0x5C, 0x22]
      else if c = 0x5C then [0x5C, 0x5C]
      else if c < 0x20 \<or> isLead c \<or> isTrail c then unicodeEscape c
      else [c])"

fun quoteBody :: "jsstring \<Rightarrow> jsstring" where
  "quoteBody [] = []"
| "quoteBody [c] = quoteUnit c"
| "quoteBody (c # d # cs) =
     (if isLead c \<and> isTrail d then c # d # quoteBody cs else quoteUnit c @ quoteBody (d # cs))"

definition quoteJSONString :: "jsstring \<Rightarrow> jsstring" where
  "quoteJSONString s = [0x22] @ quoteBody s @ [0x22]"

section \<open>The tool-call sequence repairer\<close>

text \<open>
  \<open>fixToolCallsMessages\<close> (handler.ts, 268-372). The counters, the map from call ids to
  assistant indices and the set of used response ids only feed log lines and are left out.
  \<open>toolResponseMap\<close> is the \<open>Map\<close> filled by the first loop: a later response with the same
  id overwrites an earlier one.
\<close>

definition setResponse :: "(jsstring \<rightharpoonup> message) \<Rightarrow> message \<Rightarrow> (jsstring \<rightharpoonup> message)" where
  "setResponse mp m =
     (if isToolResponse m
      then (case tool_call_id m of Some k \<Rightarrow> mp(k \<mapsto> m) | None \<Rightarrow> mp)
      else mp)"

definition toolResponseMap :: "message list \<Rightarrow> (jsstring \<rightharpoonup> message)" where
  "toolResponseMap msgs = foldl setResponse Map.empty msgs"

text \<open>\<open>tc.function?.name || "unknown"\<close>\<close>

definition toolName :: "tool_call \<Rightarrow> jsstring" where
  "toolName tc =
     (case function_tc tc of
        None \<Rightarrow> js ''unknown''
      | Some f \<Rightarrow> if name f = [] then js ''unknown'' else name f)"

definition placeholderResponse :: "tool_call \<Rightarrow> message" where
  "placeholderResponse tc =
     \<lparr> role = Tool,
       content = Str (js ''{'' @ quoteJSONString (js ''status'') @ js '':''
                      @ quoteJSONString (js ''skipped'') @ js '',''
                      @ quoteJSONString (js ''reason'') @ js '':''
                      @ quoteJSONString (js ''Tool execution was interrupted or skipped'') @ js '',''
                      @ quoteJSONString (js ''tool_name'') @ js '':''
                      @ quoteJSONString (toolName tc) @ js ''}''),
       tool_calls = None,
       tool_call_id = Some (id_tc tc) \<rparr>"

text \<open>The body of the inner loop over \<open>msg.tool_calls\<close>: the mapped response, or a placeholder.\<close>

definition responseFor :: "(jsstring \<rightharpoonup> message) \<Rightarrow> tool_call \<Rightarrow> message" where
  "responseFor mp tc = (case mp (id_tc tc) of Some r \<Rightarrow> r | None \<Rightarrow> placeholderResponse tc)"

text \<open>The rebuilding loop: what one input message appends to \<open>fixedMessages\<close>, then the rest.\<close>

fun rebuild :: "(jsstring \<rightharpoonup> message) \<Rightarrow> message list \<Rightarrow> message list" where
  "rebuild mp [] = []"
| "rebuild mp (m # rest) =
     (if role m = Tool then rebuild mp rest
      else m # (if hasToolCalls m then map (responseFor mp) (calls m) else [])
           @ rebuild mp rest)"

definition fixToolCallsMessages :: "message list \<Rightarrow> message list" where
  "fixToolCallsMessages msgs = rebuild (toolResponseMap msgs) msgs"

section \<open>The tool identifier sanitizer\<close>

text \<open>
  \<open>sanitizeToolId\<close> (handler.ts, 204-229) reads the clock and the random generator when it
  synthesizes a fallback. Both are inputs of the model: \<open>now\<close> is the value of \<open>Date.now()\<close>
  and \<open>random36\<close> the string \<open>Math.random().toString(36)\<close> of that invocation.
\<close>

record env =
  now :: nat
  random36 :: jsstring

definition fallbackId :: "env \<Rightarrow> jsstring" where
  "fallbackId e = js ''tool_'' @ digits (now e) @ js ''_'' @ slice (random36 e) 2 9"

text \<open>The class \<open>\\w\<close> without the unicode flag: ASCII letters, digits and the underscore.\<close>

definition wordChar :: "16 word \<Rightarrow> bool" where
  "wordChar c = ((0x30 \<le> c \<and> c \<le> 0x39) \<or> (0x41 \<le> c \<and> c \<le> 0x5A) \<or> c = 0x5F
                 \<or> (0x61 \<le> c \<and> c \<le> 0x7A))"

text \<open>A code unit survives \<open>replaceAll(/[^\\w-]/g, "")\<close> when it is a word character or a hyphen.\<close>

definition keptChar :: "16 word \<Rightarrow> bool" where
  "keptChar c = (wordChar c \<or> c = 0x2D)"

definition sanitizeToolId :: "env \<Rightarrow> jsstring \<Rightarrow> jsstring" where
  "sanitizeToolId e ident =
     (if ident = [] then fallbackId e
      else let sanitized = filter keptChar ident
           in if sanitized = [] then fallbackId e else sanitized)"

text \<open>
  \<open>sanitizeToolIdsInMessages\<close> (handler.ts, 234-257) maps over the messages; every call of
  \<open>sanitizeToolId\<close> sees its own clock and random values. The supply \<open>src\<close> gives the
  environment of the \<open>k\<close>-th call, and the counter is passed along.
\<close>

fun sanitizeCalls :: "(nat \<Rightarrow> env) \<Rightarrow> nat \<Rightarrow> tool_call list \<Rightarrow> tool_call list \<times> nat" where
  "sanitizeCalls src k [] = ([], k)"
| "sanitizeCalls src k (tc # tcs) =
     (let tc' = tc\<lparr>id_tc := sanitizeToolId (src k) (id_tc tc)\<rparr>;
          (tcs', k') = sanitizeCalls src (Suc k) tcs
      in (tc' # tcs', k'))"

definition sanitizeMessage :: "(nat \<Rightarrow> env) \<Rightarrow> nat \<Rightarrow> message \<Rightarrow> message \<times> nat" where
  "sanitizeMessage src k m =
     (let (m1, k1) =
            (if isToolResponse m
             then (case tool_call_id m of
                     Some t \<Rightarrow> (m\<lparr>tool_call_id := Some (sanitizeToolId (src k) t)\<rparr>, Suc k)
                   | None \<Rightarrow> (m, k))
             else (m, k))
      in if hasToolCalls m
         then (let (tcs', k2) = sanitizeCalls src k1 (calls m) in (m1\<lparr>tool_calls := Some tcs'\<rparr>, k2))
         else (m1, k1))"

fun sanitizeFrom :: "(nat \<Rightarrow> env) \<Rightarrow> nat \<Rightarrow> message list \<Rightarrow> message list" where
  "sanitizeFrom src k [] = []"
| "sanitizeFrom src k (m # ms) =
     (let (m', k') = sanitizeMessage src k m in m' # sanitizeFrom src k' ms)"

definition sanitizeToolIdsInMessages :: "(nat \<Rightarrow> env) \<Rightarrow> message list \<Rightarrow> message list" where
  "sanitizeToolIdsInMessages src msgs = sanitizeFrom src 0 msgs"

section \<open>Numbers\<close>

text \<open>
  ECMAScript numbers are binary64 floating-point values. Character and token counts are
  integers far below \<open>2^53\<close> and are computed exactly, so they are natural numbers here.
  The products and quotients with the literals \<open>0.15\<close>, \<open>0.9\<close>, \<open>0.6\<close> and \<open>0.3\<close> are
  rounded: \<open>double q\<close> is the binary64 value nearest to the positive rational \<open>q\<close>, ties to
  even (53 significant bits; all magnitudes that arise here lie in the normal range, so
  neither overflow nor gradual underflow is modelled). \<open>NaN\<close> arises from arithmetic on a
  value that is not a number, and every comparison with it is false.
\<close>

definition pow2 :: "int \<Rightarrow> rat" where
  "pow2 e = (if 0 \<le> e then 2 ^ nat e else 1 / 2 ^ nat (- e))"

definition ilog2 :: "rat \<Rightarrow> int" where
  "ilog2 q = (let (a, b) = quotient_of q; k = bitlen a - bitlen b
              in if pow2 k \<le> q then k else k - 1)"

definition roundHalfEven :: "rat \<Rightarrow> int" where
  "roundHalfEven q =
     (let f = \<lfloor>q\<rfloor>; d = q - of_int f
      in if d < 1 / 2 then f else if 1 / 2 < d then f + 1 else if even f then f else f + 1)"

definition double :: "rat \<Rightarrow> rat" where
  "double q = (if q \<le> 0 then 0
               else let u = pow2 (ilog2 q - 52) in of_int (roundHalfEven (q / u)) * u)"

definition fmul :: "rat \<Rightarrow> rat \<Rightarrow> rat" where
  "fmul x y = double (x * y)"

definition fdiv :: "rat \<Rightarrow> rat \<Rightarrow> rat" where
  "fdiv x y = double (x / y)"

datatype number = Num int | NaN

definition leNum :: "nat \<Rightarrow> number \<Rightarrow> bool" where
  "leNum x t = (case t of Num n \<Rightarrow> int x \<le> n | NaN \<Rightarrow> False)"

definition gtNum :: "nat \<Rightarrow> number \<Rightarrow> bool" where
  "gtNum x t = (case t of Num n \<Rightarrow> n < int x | NaN \<Rightarrow> False)"

definition minusNum :: "number \<Rightarrow> nat \<Rightarrow> number" where
  "minusNum t x = (case t of Num n \<Rightarrow> Num (n - int x) | NaN \<Rightarrow> NaN)"

section \<open>The model capability table\<close>

text \<open>
  \<open>MODEL_CONTEXT_LIMITS\<close> (context-truncation, 519-557) is an object literal; its entries are
  listed in insertion order, which is the order \<open>Object.entries\<close> enumerates them in.
\<close>

definition MODEL_CONTEXT_LIMITS :: "(jsstring \<times> nat) list" where
  "MODEL_CONTEXT_LIMITS =
     [(js ''gpt-4'', 8192),
      (js ''gpt-4-32k'', 32768),
      (js ''gpt-4-turbo'', 128000),
      (js ''gpt-4-turbo-preview'', 128000),
      (js ''gpt-4o'', 128000),
      (js ''gpt-4o-mini'', 128000),
      (js ''gpt-4.1'', 1000000),
      (js ''gpt-4.1-mini'', 1000000),
      (js ''gpt-4.5-preview'', 128000),
      (js ''gpt-5'', 128000),
      (js ''gpt-5.2'', 128000),
      (js ''gpt-5.2-codex'', 128000),
      (js ''o1'', 200000),
      (js ''o1-mini'', 128000),
      (js ''o1-preview'', 128000),
      (js ''o1-pro'', 200000),
      (js ''o3'', 200000),
      (js ''o3-mini'', 128000),
      (js ''o3-pro'', 200000),
      (js ''o4-mini'', 200000),
      (js ''claude-3-opus'', 200000),
      (js ''claude-3-sonnet'', 200000),
      (js ''claude-3-haiku'', 200000),
      (js ''claude-3.5-sonnet'', 200000),
      (js ''claude-3.5-haiku'', 200000),
      (js ''claude-sonnet-4'', 200000),
      (js ''claude-opus-4'', 200000),
      (js ''claude-haiku-4'', 200000),
      (js ''gemini-2.0-flash'', 1000000),
      (js ''gemini-2.5-pro'', 1000000),
      (js ''default'', 128000)]"

text \<open>
  The operator \<open>in\<close> also finds the properties an object literal inherits from
  \<open>Object.prototype\<close>. Their values are functions (an object for \<open>__proto__\<close>), not numbers.
\<close>

definition inheritedKeys :: "jsstring list" where
  "inheritedKeys =
     [js ''constructor'', js ''hasOwnProperty'', js ''isPrototypeOf'',
      js ''propertyIsEnumerable'', js ''toLocaleString'', js ''toString'', js ''valueOf'',
      js ''__proto__'', js ''__defineGetter__'', js ''__defineSetter__'',
      js ''__lookupGetter__'', js ''__lookupSetter__'']"

text \<open>The loop over \<open>Object.entries\<close>: the first key, other than \<open>default\<close>, that the model
  starts with decides.\<close>

fun prefixMatch :: "(jsstring \<times> nat) list \<Rightarrow> jsstring \<Rightarrow> nat option" where
  "prefixMatch [] model = None"
| "prefixMatch ((pfx, limit) # entries) model =
     (if pfx \<noteq> js ''default'' \<and> startsWith model pfx then Some limit
      else prefixMatch entries model)"

definition familyLimit :: "jsstring \<Rightarrow> nat" where
  "familyLimit model =
     (if includesStr model (js ''claude'') then 200000
      else if includesStr model (js ''gemini'') then 1000000
      else if includesStr model (js ''gpt-4'') then 128000
      else if includesStr model (js ''gpt-5'') then 128000
      else if startsWith model (js ''o1'') \<or> startsWith model (js ''o3'') \<or> startsWith model (js ''o4'')
      then 200000
      else 128000)"

text \<open>
  \<open>getModelContextLimit\<close> (574-605). The result is \<open>None\<close> when the lookup yields an inherited
  member instead of a number.
\<close>

definition getModelContextLimit :: "jsstring \<Rightarrow> nat option" where
  "getModelContextLimit model =
     (case map_of MODEL_CONTEXT_LIMITS model of
        Some limit \<Rightarrow> Some limit
      | None \<Rightarrow>
          if model \<in> set inheritedKeys then None
          else (case prefixMatch MODEL_CONTEXT_LIMITS model of
                  Some limit \<Rightarrow> Some limit
                | None \<Rightarrow> Some (familyLimit model)))"

text \<open>\<open>getDynamicTargetLimit\<close> (611-616) with its default reserve ratio \<open>0.15\<close>, the only one
  the callers use; \<open>reserved\<close> is the local of that name.\<close>

definition reserved :: "nat \<Rightarrow> int" where
  "reserved contextLimit = max \<lfloor>fmul (of_nat contextLimit) (double (15 / 100))\<rfloor> 4096"

definition getDynamicTargetLimit :: "jsstring \<Rightarrow> number" where
  "getDynamicTargetLimit model =
     (case getModelContextLimit model of
        None \<Rightarrow> NaN
      | Some contextLimit \<Rightarrow> Num (int contextLimit - reserved contextLimit))"

section \<open>The token estimator\<close>

datatype category = CatSystem | CatToolContext | CatRegular

definition categorizeMessage :: "message \<Rightarrow> category" where
  "categorizeMessage m =
     (if role m = System then CatSystem
      else if role m = Tool then CatToolContext
      else if role m = Assistant \<and> calls m \<noteq> [] then CatToolContext
      else CatRegular)"

text \<open>An image part appends \<open>" ".repeat(128 * 4)\<close>.\<close>

fun partText :: "part \<Rightarrow> jsstring" where
  "partText (TextPart t) = t"
| "partText (ImagePart u) = replicate (128 * 4) 0x20"

definition contentText :: "content \<Rightarrow> jsstring" where
  "contentText c = (case c of Str s \<Rightarrow> s | Parts ps \<Rightarrow> concat (map partText ps) | Null \<Rightarrow> [])"

text \<open>\<open>toolCall.function?.name || ""\<close> followed by \<open>toolCall.function?.arguments || ""\<close>\<close>

definition toolCallText :: "tool_call \<Rightarrow> jsstring" where
  "toolCallText tc = (case function_tc tc of None \<Rightarrow> [] | Some f \<Rightarrow> name f @ arguments f)"

definition messageText :: "message \<Rightarrow> jsstring" where
  "messageText m =
     contentText (content m)
     @ (if role m = Assistant then concat (map toolCallText (calls m)) else [])
     @ (if isToolResponse m then (case tool_call_id m of Some t \<Rightarrow> t | None \<Rightarrow> []) else [])"

text \<open>\<open>estimateMessageTokens\<close> (645-677): \<open>Math.ceil(text.length / 4) + 4\<close>. Dividing an
  integer by four is exact in binary64.\<close>

definition estimateMessageTokens :: "message \<Rightarrow> nat" where
  "estimateMessageTokens m = nat \<lceil>rat_of_nat (length (messageText m)) / 4\<rceil> + 4"

section \<open>Compression of a tool result\<close>

definition markerPrefix :: jsstring where
  "markerPrefix =
     [0x0A, 0x0A, 0x2E, 0x2E, 0x2E, 0x20, 0x5B, 0x5185, 0x5BB9, 0x5DF2, 0x622A, 0x65AD, 0xFF0C,
      0x4E2D, 0x95F4, 0x7701, 0x7565, 0x20]"

definition markerSuffix :: jsstring where
  "markerSuffix = [0x20, 0x5B57, 0x7B26, 0x5D, 0x20, 0x2E, 0x2E, 0x2E, 0x0A, 0x0A]"

text \<open>\<open>compressToolResult\<close> (683-714). The three lengths are the source's \<open>targetLength\<close>,
  \<open>headLength\<close> and \<open>tailLength\<close>, each a \<open>Math.floor\<close> of a rounded product;
  \<open>content.slice(-tailLength)\<close> is \<open>sliceFrom\<close> at the negated length.\<close>

definition targetLengthOf :: "nat \<Rightarrow> nat \<Rightarrow> nat \<Rightarrow> int" where
  "targetLengthOf len maxTokens currentTokens =
     (let ratio = fdiv (of_nat maxTokens) (of_nat currentTokens)
      in \<lfloor>fmul (fmul (of_nat len) ratio) (double (9 / 10))\<rfloor>)"

definition headLengthOf :: "int \<Rightarrow> int" where
  "headLengthOf targetLength = \<lfloor>fmul (of_int targetLength) (double (6 / 10))\<rfloor>"

definition tailLengthOf :: "int \<Rightarrow> int" where
  "tailLengthOf targetLength = \<lfloor>fmul (of_int targetLength) (double (3 / 10))\<rfloor>"

definition compressToolResult :: "message \<Rightarrow> nat \<Rightarrow> message" where
  "compressToolResult m maxTokens =
     (let text = (case content m of Str s \<Rightarrow> s | _ \<Rightarrow> []);
          currentTokens = estimateMessageTokens m
      in if currentTokens \<le> maxTokens then m
         else
           (let targetLength = targetLengthOf (length text) maxTokens currentTokens;
                headLength = headLengthOf targetLength;
                tailLength = tailLengthOf targetLength;
                truncatedContent =
                  slice text 0 headLength
                  @ markerPrefix
                  @ showInt (int (length text) - headLength - tailLength)
                  @ markerSuffix
                  @ sliceFrom text (- tailLength)
            in m\<lparr>content := Str truncatedContent\<rparr>))"

section \<open>The budget fitter\<close>

record item =
  msg :: message
  category :: category
  tokens :: nat
  index :: nat

record truncationResult =
  messages :: "message list"
  originalTokens :: nat
  truncatedTokens :: nat
  removedCount :: nat
  compressedCount :: nat

text \<open>The array \<open>categorized\<close>: message \<open>i\<close> with its category, its estimate and its index.\<close>

definition categorized :: "message list \<Rightarrow> item list" where
  "categorized msgs =
     map (\<lambda>i. \<lparr> msg = msgs ! i, category = categorizeMessage (msgs ! i),
                 tokens = estimateMessageTokens (msgs ! i), index = i \<rparr>)
         [0..<length msgs]"

text \<open>Step 1, the callback of \<open>categorized.map\<close>; \<open>compressible\<close> is the condition under
  which the callback increments \<open>compressedCount\<close>.\<close>

definition compressible :: "item \<Rightarrow> bool" where
  "compressible it =
     (role (msg it) = Tool \<and> 8000 < tokens it
      \<and> estimateMessageTokens (compressToolResult (msg it) 8000) < tokens it)"

definition compressItem :: "item \<Rightarrow> item" where
  "compressItem it =
     (if role (msg it) = Tool \<and> 8000 < tokens it
      then (let compressedMsg = compressToolResult (msg it) 8000;
                newTokens = estimateMessageTokens compressedMsg
            in if newTokens < tokens it then it\<lparr>msg := compressedMsg, tokens := newTokens\<rparr> else it)
      else it)"

text \<open>Step 2. System messages are kept.\<close>

definition keepSystem :: "item list \<Rightarrow> nat set" where
  "keepSystem compressed =
     foldl (\<lambda>keep it. if category it = CatSystem then insert (index it) keep else keep) {} compressed"

text \<open>The search for \<open>lastToolIndex\<close>: \<open>findLastTool compressed n\<close> examines the indices
  \<open>n - 1\<close> down to \<open>0\<close>; \<open>None\<close> stands for \<open>-1\<close>.\<close>

fun findLastTool :: "item list \<Rightarrow> nat \<Rightarrow> nat option" where
  "findLastTool compressed 0 = None"
| "findLastTool compressed (Suc i) =
     (if category (compressed ! i) = CatToolContext then Some i else findLastTool compressed i)"

definition lastToolIndex :: "item list \<Rightarrow> nat option" where
  "lastToolIndex compressed = findLastTool compressed (length compressed)"

text \<open>The loop from \<open>lastToolIndex\<close> down to \<open>0\<close>: \<open>keepChain compressed l n keep\<close> examines the
  indices \<open>n - 1\<close> down to \<open>0\<close>. A tool-context item is added, a regular item below
  \<open>lastToolIndex\<close> ends the loop, and any other item is passed over.\<close>

fun keepChain :: "item list \<Rightarrow> nat \<Rightarrow> nat \<Rightarrow> nat set \<Rightarrow> nat set" where
  "keepChain compressed l 0 keep = keep"
| "keepChain compressed l (Suc i) keep =
     (if category (compressed ! i) = CatToolContext
      then keepChain compressed l i (insert (index (compressed ! i)) keep)
      else if category (compressed ! i) = CatRegular \<and> i < l then keep
      else keepChain compressed l i keep)"

text \<open>The last user message is kept.\<close>

fun keepLastUser :: "item list \<Rightarrow> nat \<Rightarrow> nat set \<Rightarrow> nat set" where
  "keepLastUser compressed 0 keep = keep"
| "keepLastUser compressed (Suc i) keep =
     (if role (msg (compressed ! i)) = User then insert (index (compressed ! i)) keep
      else keepLastUser compressed i keep)"

definition mustKeepSet :: "item list \<Rightarrow> nat set" where
  "mustKeepSet compressed =
     (let keep1 = keepSystem compressed;
          keep2 = (case lastToolIndex compressed of
                     None \<Rightarrow> keep1
                   | Some l \<Rightarrow> keepChain compressed l (Suc l) keep1)
      in keepLastUser compressed (length compressed) keep2)"

text \<open>What the second rule contributes on its own: the same loop started from the empty
  set.\<close>

definition toolChain :: "item list \<Rightarrow> nat set" where
  "toolChain compressed =
     (case lastToolIndex compressed of
        None \<Rightarrow> {}
      | Some l \<Rightarrow> keepChain compressed l (Suc l) {})"

text \<open>Step 3, the greedy choice among the regular messages, most recent first: the list is
  \<open>regularMessages\<close> reversed.\<close>

fun pickRegular :: "number \<Rightarrow> item list \<Rightarrow> nat \<Rightarrow> nat set \<Rightarrow> nat set" where
  "pickRegular availableTokens [] usedTokens keepRegular = keepRegular"
| "pickRegular availableTokens (it # its) usedTokens keepRegular =
     (if leNum (usedTokens + tokens it) availableTokens
      then pickRegular availableTokens its (usedTokens + tokens it) (insert (index it) keepRegular)
      else pickRegular availableTokens its usedTokens keepRegular)"

text \<open>
  \<open>truncateMessagesSmart\<close> (725-902). An absent \<open>targetTokens\<close> is \<open>None\<close>; an explicit
  target is an integer or \<open>NaN\<close>.
\<close>

definition truncateMessagesSmart :: "message list \<Rightarrow> jsstring \<Rightarrow> number option \<Rightarrow> truncationResult" where
  "truncateMessagesSmart msgs model targetTokens =
     (let target = (case targetTokens of Some t \<Rightarrow> t | None \<Rightarrow> getDynamicTargetLimit model);
          original = sum_list (map estimateMessageTokens msgs)
      in if leNum original target
         then \<lparr> messages = msgs, originalTokens = original, truncatedTokens = original,
                removedCount = 0, compressedCount = 0 \<rparr>
         else
           (let items = categorized msgs;
                compressedCnt = length (filter compressible items);
                compressed = map compressItem items;
                currentTokens = sum_list (map tokens compressed)
            in if leNum currentTokens target
               then \<lparr> messages = map msg compressed, originalTokens = original,
                      truncatedTokens = currentTokens, removedCount = 0,
                      compressedCount = compressedCnt \<rparr>
               else
                 (let mustKeep = mustKeepSet compressed;
                      mustKeepTokens =
                        sum_list (map tokens (filter (\<lambda>it. index it \<in> mustKeep) compressed));
                      availableTokens = minusNum target mustKeepTokens;
                      regularMessages =
                        filter (\<lambda>it. index it \<notin> mustKeep \<and> category it = CatRegular) compressed;
                      keepRegular = pickRegular availableTokens (rev regularMessages) 0 {};
                      kept = (\<lambda>it. index it \<in> mustKeep \<or> index it \<in> keepRegular);
                      result = sort_key index (filter kept compressed);
                      removed = length (filter (\<lambda>it. \<not> kept it) compressed)
                  in \<lparr> messages = map msg result, originalTokens = original,
                         truncatedTokens = sum_list (map tokens result), removedCount = removed,
                         compressedCount = compressedCnt \<rparr>)))"

text \<open>\<open>needsTruncation\<close> (907-919) leaves its loop as soon as the running total exceeds the
  target.\<close>

fun exceeds :: "number \<Rightarrow> message list \<Rightarrow> nat \<Rightarrow> bool" where
  "exceeds target [] totalTokens = False"
| "exceeds target (m # ms) totalTokens =
     (if gtNum (totalTokens + estimateMessageTokens m) target then True
      else exceeds target ms (totalTokens + estimateMessageTokens m))"

definition needsTruncation :: "message list \<Rightarrow> jsstring \<Rightarrow> bool" where
  "needsTruncation msgs model = exceeds (getDynamicTargetLimit model) msgs 0"

text \<open>\<open>getTotalTokens\<close> (924-926), a \<open>reduce\<close> from \<open>0\<close>.\<close>

definition getTotalTokens :: "message list \<Rightarrow> nat" where
  "getTotalTokens msgs = foldl (\<lambda>sum m. sum + estimateMessageTokens m) 0 msgs"

section \<open>Specification predicates\<close>

subsection \<open>Example messages\<close>

definition systemMsg :: "jsstring \<Rightarrow> message" where
  "systemMsg t = \<lparr> role = System, content = Str t, tool_calls = None, tool_call_id = None \<rparr>"

definition userMsg :: "jsstring \<Rightarrow> message" where
  "userMsg t = \<lparr> role = User, content = Str t, tool_calls = None, tool_call_id = None \<rparr>"

definition toolMsg :: "jsstring \<Rightarrow> jsstring \<Rightarrow> message" where
  "toolMsg i t = \<lparr> role = Tool, content = Str t, tool_calls = None, tool_call_id = Some i \<rparr>"

definition callOf :: "jsstring \<Rightarrow> jsstring \<Rightarrow> tool_call" where
  "callOf i f = \<lparr> id_tc = i, function_tc = Some \<lparr> name = f, arguments = js ''{}'' \<rparr> \<rparr>"

definition assistantCalls :: "tool_call list \<Rightarrow> message" where
  "assistantCalls tcs =
     \<lparr> role = Assistant, content = Null, tool_calls = Some tcs, tool_call_id = None \<rparr>"

text \<open>Scenario 2 of the specification, with the response to \<open>a\<close> arriving out of place: an
  assistant message calls \<open>a\<close> and \<open>b\<close>, and only \<open>a\<close> has a response.\<close>

definition scenario2 :: "message list" where
  "scenario2 =
     [toolMsg (js ''a'') (js ''ok''), userMsg (js ''hi''),
      assistantCalls [callOf (js ''a'') (js ''f''), callOf (js ''b'') (js ''g'')]]"

subsection \<open>The ordering invariant of the repairer\<close>

text \<open>
  \<open>answers tcs rs\<close>: the messages \<open>rs\<close> are tool messages whose \<open>tool_call_id\<close>s are the ids of
  the calls \<open>tcs\<close>, one for one and in order. \<open>followedByResponses\<close> says that every assistant
  message with calls is followed by exactly such a block (and that the message after the
  block is not a tool message); \<open>responsesOnlyAfterCalls\<close> says that every tool message lies
  in the block of some assistant message. \<open>repaired\<close> checks the same invariant by running
  through the list once.
\<close>

definition answers :: "tool_call list \<Rightarrow> message list \<Rightarrow> bool" where
  "answers tcs rs = (map (\<lambda>r. (role r, tool_call_id r)) rs = map (\<lambda>tc. (Tool, Some (id_tc tc))) tcs)"

function repaired :: "message list \<Rightarrow> bool" where
  "repaired [] = True"
| "repaired (m # ms) =
     (role m \<noteq> Tool \<and>
      (if hasToolCalls m
       then answers (calls m) (take (length (calls m)) ms) \<and> repaired (drop (length (calls m)) ms)
       else repaired ms))"
  by pat_completeness auto
termination
  by (relation "measure length") auto

definition followedByResponses :: "message list \<Rightarrow> bool" where
  "followedByResponses out =
     (\<forall>i < length out. hasToolCalls (out ! i) \<longrightarrow>
        (let tcs = calls (out ! i); rest = drop (Suc i) out
         in answers tcs (take (length tcs) rest)
            \<and> (case drop (length tcs) rest of [] \<Rightarrow> True | r # _ \<Rightarrow> role r \<noteq> Tool)))"

definition responsesOnlyAfterCalls :: "message list \<Rightarrow> bool" where
  "responsesOnlyAfterCalls out =
     (\<forall>k < length out. role (out ! k) = Tool \<longrightarrow>
        (\<exists>i < k. hasToolCalls (out ! i) \<and> k \<le> i + length (calls (out ! i))))"

text \<open>The invariant of the response map: a stored message is a tool message filed under its
  own \<open>tool_call_id\<close>.\<close>

definition keyed :: "(jsstring \<rightharpoonup> message) \<Rightarrow> bool" where
  "keyed mp = (\<forall>k r. mp k = Some r \<longrightarrow> role r = Tool \<and> tool_call_id r = Some k)"


subsection \<open>Character counts\<close>

text \<open>What the estimator counts, stated on lengths: the characters of a string content or of
  the text parts, the function names and serialized arguments of an assistant message's tool
  calls, and the \<open>tool_call_id\<close> of a tool message; image parts are counted apart.\<close>

fun partChars :: "part \<Rightarrow> nat" where
  "partChars (TextPart t) = length t"
| "partChars (ImagePart u) = 0"

fun isImage :: "part \<Rightarrow> bool" where
  "isImage (TextPart t) = False"
| "isImage (ImagePart u) = True"

definition contentChars :: "content \<Rightarrow> nat" where
  "contentChars c = (case c of Str s \<Rightarrow> length s | Parts ps \<Rightarrow> sum_list (map partChars ps) | Null \<Rightarrow> 0)"

definition imageParts :: "content \<Rightarrow> nat" where
  "imageParts c = (case c of Parts ps \<Rightarrow> length (filter isImage ps) | _ \<Rightarrow> 0)"

definition callChars :: "tool_call \<Rightarrow> nat" where
  "callChars tc = (case function_tc tc of None \<Rightarrow> 0 | Some f \<Rightarrow> length (name f) + length (arguments f))"

definition countedChars :: "message \<Rightarrow> nat" where
  "countedChars m =
     contentChars (content m)
     + (if role m = Assistant then sum_list (map callChars (calls m)) else 0)
     + (if role m = Tool then (case tool_call_id m of Some t \<Rightarrow> length t | None \<Rightarrow> 0) else 0)"


subsection \<open>Resolution of the context window\<close>

text \<open>
  \<open>claimedContextLimit\<close> follows the words of the specification: exact match, then the
  longest key of the table that the identifier starts with, then the family heuristics, then
  the default. \<open>longestPrefix\<close> runs through the table and keeps the longest matching key
  seen so far. The entry \<open>default\<close> is the fallback, not a model prefix.
\<close>

definition prefixKey :: "jsstring \<Rightarrow> jsstring \<Rightarrow> bool" where
  "prefixKey model k = (k \<noteq> js ''default'' \<and> startsWith model k)"

fun longestPrefix :: "(jsstring \<times> nat) list \<Rightarrow> jsstring \<Rightarrow> (jsstring \<times> nat) option \<Rightarrow> (jsstring \<times> nat) option" where
  "longestPrefix [] model best = best"
| "longestPrefix ((k, limit) # entries) model best =
     longestPrefix entries model
       (if prefixKey model k \<and> (case best of None \<Rightarrow> True | Some (b, _) \<Rightarrow> length b < length k)
        then Some (k, limit) else best)"

definition claimedContextLimit :: "jsstring \<Rightarrow> nat" where
  "claimedContextLimit model =
     (case map_of MODEL_CONTEXT_LIMITS model of
        Some limit \<Rightarrow> limit
      | None \<Rightarrow>
          (case longestPrefix MODEL_CONTEXT_LIMITS model None of
             Some (k, limit) \<Rightarrow> limit
           | None \<Rightarrow> familyLimit model))"

text \<open>\<open>prefixEntry model i\<close>: entry \<open>i\<close> of the table is a prefix candidate for \<open>model\<close>.\<close>

definition prefixEntry :: "jsstring \<Rightarrow> nat \<Rightarrow> bool" where
  "prefixEntry model i =
     (i < length MODEL_CONTEXT_LIMITS \<and> prefixKey model (fst (MODEL_CONTEXT_LIMITS ! i)))"

subsection \<open>Clock and random values of two invocations\<close>

definition env1 :: env where
  "env1 = \<lparr> now = 1700000000000, random36 = js ''0.4fzyo82mvyr'' \<rparr>"

definition env2 :: env where
  "env2 = \<lparr> now = 1700000000000, random36 = js ''0.8dkq2x1a9rc'' \<rparr>"

subsection \<open>Example conversations for the budget fitter\<close>

text \<open>Scenario 4 of the specification: one user message of 19984 characters, estimated at
  5000 tokens.\<close>

definition scenario4 :: "message list" where
  "scenario4 = [userMsg (replicate 19984 0x61)]"

subsection \<open>The tool-call chain as the specification words it\<close>

text \<open>
  \<open>claimedChain\<close> follows the words of the specification: scan backward from the end of the
  conversation while the messages are tool-context and stop at the first message that is
  not.
\<close>

fun claimedChainFrom :: "item list \<Rightarrow> nat \<Rightarrow> nat set" where
  "claimedChainFrom items 0 = {}"
| "claimedChainFrom items (Suc i) =
     (if category (items ! i) = CatToolContext
      then insert (index (items ! i)) (claimedChainFrom items i) else {})"

definition claimedChain :: "item list \<Rightarrow> nat set" where
  "claimedChain items = claimedChainFrom items (length items)"

text \<open>A conversation whose last message is a user message that follows a tool call and its
  response, and one in which a system message sits between the call and the response.\<close>

definition chainThenUser :: "message list" where
  "chainThenUser =
     [userMsg (js ''list the files''), assistantCalls [callOf (js ''a'') (js ''ls'')],
      toolMsg (js ''a'') (js ''README.md''), userMsg (js ''thanks'')]"

definition chainAcrossSystem :: "message list" where
  "chainAcrossSystem =
     [assistantCalls [callOf (js ''a'') (js ''ls'')], systemMsg (js ''be brief''),
      toolMsg (js ''a'') (js ''README.md'')]"

subsection \<open>What the budget fitter may do to a message\<close>

text \<open>\<open>fitted out inp\<close>: the output message is the input message itself, or the input is a
  tool response and the output is its compression to the 8000-token ceiling.\<close>

definition fitted :: "message \<Rightarrow> message \<Rightarrow> bool" where
  "fitted out inp = (out = inp \<or> (role inp = Tool \<and> out = compressToolResult inp 8000))"

text \<open>Scenario 5 of the specification: a single tool response of 40000 characters;
  \<open>longText n\<close> is the letter \<open>a\<close> repeated \<open>n\<close> times.\<close>

definition longText :: "nat \<Rightarrow> jsstring" where
  "longText n = replicate n 0x61"

definition scenario5 :: "message list" where
  "scenario5 = [toolMsg (js ''a'') (longText 40000)]"

text \<open>A tool response with the short content \<open>abcd\<close> and a \<open>tool_call_id\<close> of 40000
  characters: its estimate exceeds the ceiling, and the retained length is too small for a
  tail.\<close>

definition shortContentLongId :: message where
  "shortContentLongId = toolMsg (longText 40000) (js ''abcd'')"

subsection \<open>Sanitized conversations\<close>

text \<open>
  \<open>cleanId\<close>: the id matches \<open>^[A-Za-z0-9_-]+$\<close>. \<open>sanitizedIds\<close>: every id that
  \<open>sanitizeToolIdsInMessages\<close> rewrites is clean, that is every call id of an assistant
  message with calls and every non-empty \<open>tool_call_id\<close> of a tool message.
  \<open>sameIdSameResponse\<close>: two tool messages with the same \<open>tool_call_id\<close> are the same
  message.
\<close>

definition cleanId :: "jsstring \<Rightarrow> bool" where
  "cleanId s = (s \<noteq> [] \<and> (\<forall>c \<in> set s. keptChar c))"

definition sanitizedIds :: "message list \<Rightarrow> bool" where
  "sanitizedIds msgs =
     (\<forall>m \<in> set msgs.
        (hasToolCalls m \<longrightarrow> (\<forall>tc \<in> set (calls m). cleanId (id_tc tc)))
        \<and> (isToolResponse m \<longrightarrow> (\<forall>t. tool_call_id m = Some t \<longrightarrow> cleanId t)))"

definition sameIdSameResponse :: "message list \<Rightarrow> bool" where
  "sameIdSameResponse msgs =
     (\<forall>r \<in> set msgs. \<forall>r' \<in> set msgs.
        role r = Tool \<and> role r' = Tool \<and> tool_call_id r = tool_call_id r' \<longrightarrow> r = r')"

text \<open>Two assistant messages whose calls share the id \<open>a\<close> and have no responses.\<close>

definition sharedCallId :: "message list" where
  "sharedCallId =
     [assistantCalls [callOf (js ''a'') (js ''read'')],
      assistantCalls [callOf (js ''a'') (js ''write'')]]"

section \<open>Verification\<close>

subsection \<open>Strings and sums\<close>

lemma js_simps: "js [] = []" "js (c # cs) = of_char c # js cs"
  by (simp_all add: js_def)


lemma of_char_word_eq_iff: "(of_char c :: 16 word) = of_char d \<longleftrightarrow> c = d"
proof
  assume a: "(of_char c :: 16 word) = of_char d"
  have u: "unat (of_char x :: 16 word) = of_char x" for x
  proof -
    have "(of_char x :: nat) < 256" by (rule nat_of_char_less_256)
    then have "(of_char x :: nat) < 2 ^ LENGTH(16)" by (rule less_trans) simp
    then have "(of_char x :: nat) mod 2 ^ LENGTH(16) = of_char x" by (rule mod_less)
    then have "unat (of_nat (of_char x) :: 16 word) = of_char x" by (simp only: unat_of_nat)
    then show ?thesis by (simp only: of_nat_of_char)
  qed
  from a have "unat (of_char c :: 16 word) = unat (of_char d :: 16 word)" by simp
  then have "(of_char c :: nat) = of_char d" by (simp only: u)
  then show "c = d" by simp
qed simp

lemma js_eq_iff [simp]: "js a = js b \<longleftrightarrow> a = b"
  unfolding js_def by (rule inj_map_eq_map) (simp add: inj_def of_char_word_eq_iff)

lemma js_Nil_iff [simp]: "js a = [] \<longleftrightarrow> a = []" "[] = js a \<longleftrightarrow> a = []"
  by (auto simp: js_def)

lemma startsWith_js: "startsWith (js m) (js k) = (take (length k) m = k)"
proof -
  have "inj (of_char :: char \<Rightarrow> 16 word)" by (simp add: inj_def of_char_word_eq_iff)
  then show ?thesis
    unfolding startsWith_def js_def by (simp add: take_map inj_map_eq_map)
qed


lemma length_js [simp]: "length (js s) = length s"
  by (simp add: js_def)

lemma getTotalTokens_foldl:
  "foldl (\<lambda>sum m. sum + estimateMessageTokens m) a ms = a + sum_list (map estimateMessageTokens ms)"
  by (induction ms arbitrary: a) simp_all

lemma getTotalTokens_sum: "getTotalTokens ms = sum_list (map estimateMessageTokens ms)"
  by (simp add: getTotalTokens_def getTotalTokens_foldl)

subsection \<open>The repairer\<close>

lemma keyed_setResponse: "keyed mp \<Longrightarrow> keyed (setResponse mp m)"
  by (auto simp: keyed_def setResponse_def isToolResponse_def split: option.splits)

lemma keyed_foldl: "keyed mp \<Longrightarrow> keyed (foldl setResponse mp msgs)"
  by (induction msgs arbitrary: mp) (simp_all add: keyed_setResponse)

lemma keyed_toolResponseMap: "keyed (toolResponseMap msgs)"
  unfolding toolResponseMap_def by (rule keyed_foldl) (simp add: keyed_def)

lemma responseFor_keyed:
  "keyed mp \<Longrightarrow> role (responseFor mp tc) = Tool \<and> tool_call_id (responseFor mp tc) = Some (id_tc tc)"
  by (auto simp: keyed_def responseFor_def placeholderResponse_def split: option.splits)

lemma answers_responseFor: "keyed mp \<Longrightarrow> answers tcs (map (responseFor mp) tcs)"
  by (simp add: answers_def responseFor_keyed)

lemma repaired_rebuild: "keyed mp \<Longrightarrow> repaired (rebuild mp msgs)"
proof (induction msgs)
  case Nil
  then show ?case by simp
next
  case (Cons m ms)
  then show ?case
    by (simp add: answers_responseFor)
qed

lemma answers_length: "answers tcs rs \<Longrightarrow> length rs = length tcs"
proof -
  assume "answers tcs rs"
  then have "length (map (\<lambda>r. (role r, tool_call_id r)) rs) = length (map (\<lambda>tc. (Tool, Some (id_tc tc))) tcs)"
    by (simp only: answers_def)
  then show ?thesis by simp
qed

lemma answers_role: "answers tcs rs \<Longrightarrow> r \<in> set rs \<Longrightarrow> role r = Tool"
proof -
  assume a: "answers tcs rs" and r: "r \<in> set rs"
  from r have "(role r, tool_call_id r) \<in> set (map (\<lambda>r. (role r, tool_call_id r)) rs)"
    by (simp add: image_iff) blast
  with a have "(role r, tool_call_id r) \<in> set (map (\<lambda>tc. (Tool, Some (id_tc tc))) tcs)"
    by (simp add: answers_def)
  then show ?thesis by auto
qed

lemma repaired_hd: "repaired xs \<Longrightarrow> (case xs of [] \<Rightarrow> True | r # _ \<Rightarrow> role r \<noteq> Tool)"
  by (cases xs) auto

lemma repaired_followed: "repaired xs \<Longrightarrow> followedByResponses xs"
proof (induction xs rule: repaired.induct)
  case 1
  then show ?case by (simp add: followedByResponses_def)
next
  case (2 m ms)
  show ?case
  proof (cases "hasToolCalls m")
    case True
    let ?n = "length (calls m)"
    from 2 True have a: "answers (calls m) (take ?n ms)" and r: "repaired (drop ?n ms)" by auto
    from 2 True r have ih: "followedByResponses (drop ?n ms)" by simp
    have len: "?n \<le> length ms" using answers_length[OF a] by simp
    show ?thesis
      unfolding followedByResponses_def
    proof (intro allI impI)
      fix i assume i: "i < length (m # ms)" and h: "hasToolCalls ((m # ms) ! i)"
      show "let tcs = calls ((m # ms) ! i); rest = drop (Suc i) (m # ms)
         in answers tcs (take (length tcs) rest)
            \<and> (case drop (length tcs) rest of [] \<Rightarrow> True | r # _ \<Rightarrow> role r \<noteq> Tool)"
      proof (cases "i = 0")
        case True
        then show ?thesis using a repaired_hd[OF r] by (simp add: Let_def)
      next
        case False
        then obtain j where j: "i = Suc j" by (cases i) auto
        have "\<not> j < ?n"
        proof
          assume "j < ?n"
          then have "ms ! j \<in> set (take ?n ms)" using len
            by (simp add: in_set_conv_nth) (rule exI[of _ j], simp)
          then have "role (ms ! j) = Tool" using answers_role[OF a] by blast
          then show False using h j by (simp add: hasToolCalls_def)
        qed
        then have "j = ?n + (j - ?n)" by simp
        then obtain l where l: "j = ?n + l" ..
        have "l < length (drop ?n ms)" using i j l by simp
        moreover have "(drop ?n ms) ! l = (m # ms) ! i" using j l len by simp
        moreover have "drop (Suc l) (drop ?n ms) = drop (Suc i) (m # ms)" using j l by (simp add: add.commute)
        ultimately show ?thesis
          using ih[unfolded followedByResponses_def, rule_format, of l] h by simp
      qed
    qed
  next
    case False
    with 2 have ih: "followedByResponses ms" by simp
    show ?thesis
      unfolding followedByResponses_def
    proof (intro allI impI)
      fix i assume i: "i < length (m # ms)" and h: "hasToolCalls ((m # ms) ! i)"
      with False obtain j where j: "i = Suc j" by (cases i) auto
      with i h ih show "let tcs = calls ((m # ms) ! i); rest = drop (Suc i) (m # ms)
         in answers tcs (take (length tcs) rest)
            \<and> (case drop (length tcs) rest of [] \<Rightarrow> True | r # _ \<Rightarrow> role r \<noteq> Tool)"
        unfolding followedByResponses_def by simp
    qed
  qed
qed

lemma repaired_only: "repaired xs \<Longrightarrow> responsesOnlyAfterCalls xs"
proof (induction xs rule: repaired.induct)
  case 1
  then show ?case by (simp add: responsesOnlyAfterCalls_def)
next
  case (2 m ms)
  from 2 have nt: "role m \<noteq> Tool" by simp
  show ?case
  proof (cases "hasToolCalls m")
    case True
    let ?n = "length (calls m)"
    from 2 True have r: "repaired (drop ?n ms)" by auto
    from 2 True r have ih: "responsesOnlyAfterCalls (drop ?n ms)" by simp
    show ?thesis
      unfolding responsesOnlyAfterCalls_def
    proof (intro allI impI)
      fix k assume k: "k < length (m # ms)" and t: "role ((m # ms) ! k) = Tool"
      from nt t obtain j where j: "k = Suc j" by (cases k) auto
      show "\<exists>i<k. hasToolCalls ((m # ms) ! i) \<and> k \<le> i + length (calls ((m # ms) ! i))"
      proof (cases "j < ?n")
        case True
        with \<open>hasToolCalls m\<close> j show ?thesis by (intro exI[of _ 0]) simp
      next
        case False
        then have "j = ?n + (j - ?n)" by simp
        then obtain l where l: "j = ?n + l" ..
        have ll: "l < length (drop ?n ms)" using k j l by simp
        have el: "(drop ?n ms) ! l = ms ! j" using k j l by simp
        from ih[unfolded responsesOnlyAfterCalls_def, rule_format, of l] ll el t j
        obtain i where i: "i < l" "hasToolCalls (drop ?n ms ! i)"
            "l \<le> i + length (calls (drop ?n ms ! i))" by auto
        have ei: "drop ?n ms ! i = (m # ms) ! (Suc (?n + i))" using i(1) ll by simp
        show ?thesis
          using i j l unfolding ei by (intro exI[of _ "Suc (?n + i)"]) simp
      qed
    qed
  next
    case False
    with 2 have ih: "responsesOnlyAfterCalls ms" by simp
    show ?thesis
      unfolding responsesOnlyAfterCalls_def
    proof (intro allI impI)
      fix k assume k: "k < length (m # ms)" and t: "role ((m # ms) ! k) = Tool"
      from nt t obtain j where j: "k = Suc j" by (cases k) auto
      from ih[unfolded responsesOnlyAfterCalls_def, rule_format, of j] k t j
      obtain i where i: "i < j" "hasToolCalls (ms ! i)" "j \<le> i + length (calls (ms ! i))" by auto
      show "\<exists>i<k. hasToolCalls ((m # ms) ! i) \<and> k \<le> i + length (calls ((m # ms) ! i))"
        using i j by (intro exI[of _ "Suc i"]) simp
    qed
  qed
qed

lemma followed_drop:
  assumes "followedByResponses xs"
  shows "followedByResponses (drop n xs)"
  unfolding followedByResponses_def
proof (intro allI impI)
  fix i assume i: "i < length (drop n xs)" and h: "hasToolCalls (drop n xs ! i)"
  have e: "drop n xs ! i = xs ! (n + i)" using i by simp
  have d: "drop (Suc i) (drop n xs) = drop (Suc (n + i)) xs" by (simp add: add.commute)
  from i have "n + i < length xs" by simp
  with assms[unfolded followedByResponses_def, rule_format, of "n + i"] h
  show "let tcs = calls (drop n xs ! i); rest = drop (Suc i) (drop n xs)
         in answers tcs (take (length tcs) rest)
            \<and> (case drop (length tcs) rest of [] \<Rightarrow> True | r # _ \<Rightarrow> role r \<noteq> Tool)"
    unfolding e d by simp
qed

lemma invariant_repaired:
  "followedByResponses xs \<Longrightarrow> responsesOnlyAfterCalls xs \<Longrightarrow> repaired xs"
proof (induction xs rule: repaired.induct)
  case 1
  then show ?case by simp
next
  case (2 m ms)
  note f = "2.prems"(1) and o = "2.prems"(2)
  from o[unfolded responsesOnlyAfterCalls_def, rule_format, of 0]
  have nt: "role m \<noteq> Tool" by auto
  show ?case
  proof (cases "hasToolCalls m")
    case True
    let ?n = "length (calls m)"
    from f[unfolded followedByResponses_def, rule_format, of 0] True
    have a: "answers (calls m) (take ?n ms)" by (simp add: Let_def)
    have len: "?n \<le> length ms" using answers_length[OF a] by simp
    have fd: "followedByResponses (drop ?n ms)"
      using followed_drop[OF f, of "Suc ?n"] by simp
    have od: "responsesOnlyAfterCalls (drop ?n ms)"
      unfolding responsesOnlyAfterCalls_def
    proof (intro allI impI)
      fix k assume k: "k < length (drop ?n ms)" and t: "role (drop ?n ms ! k) = Tool"
      have e: "drop ?n ms ! k = (m # ms) ! (Suc (?n + k))" using k by simp
      from k have kk: "Suc (?n + k) < length (m # ms)" by simp
      from o[unfolded responsesOnlyAfterCalls_def, rule_format, OF kk] t e
      obtain i where i: "i < Suc (?n + k)" "hasToolCalls ((m # ms) ! i)"
          "Suc (?n + k) \<le> i + length (calls ((m # ms) ! i))" by auto
      have "i \<noteq> 0" using i(3) by (cases i) auto
      then obtain j where j: "i = Suc j" by (cases i) auto
      have "\<not> j < ?n"
      proof
        assume "j < ?n"
        then have "ms ! j \<in> set (take ?n ms)" using len
          by (simp add: in_set_conv_nth) (rule exI[of _ j], simp)
        then have "role (ms ! j) = Tool" using answers_role[OF a] by blast
        then show False using i(2) j by (simp add: hasToolCalls_def)
      qed
      then have "j = ?n + (j - ?n)" by simp
      then obtain l where l: "j = ?n + l" ..
      have el: "(m # ms) ! i = drop ?n ms ! l" using i(1) j l k by simp
      show "\<exists>i<k. hasToolCalls (drop ?n ms ! i) \<and> k \<le> i + length (calls (drop ?n ms ! i))"
        using i j l unfolding el by (intro exI[of _ l]) simp
    qed
    from "2.IH"(1)[OF True fd od] a nt True show ?thesis by simp
  next
    case False
    have fd: "followedByResponses ms" using followed_drop[OF f, of 1] by simp
    have od: "responsesOnlyAfterCalls ms"
      unfolding responsesOnlyAfterCalls_def
    proof (intro allI impI)
      fix k assume k: "k < length ms" and t: "role (ms ! k) = Tool"
      from o[unfolded responsesOnlyAfterCalls_def, rule_format, of "Suc k"] k t
      obtain i where i: "i < Suc k" "hasToolCalls ((m # ms) ! i)"
          "Suc k \<le> i + length (calls ((m # ms) ! i))" by auto
      from False i(2) obtain j where j: "i = Suc j" by (cases i) auto
      show "\<exists>i<k. hasToolCalls (ms ! i) \<and> k \<le> i + length (calls (ms ! i))"
        using i j by (intro exI[of _ j]) simp
    qed
    from "2.IH"(2)[OF False fd od] nt False show ?thesis by simp
  qed
qed

lemma repaired_iff: "repaired xs \<longleftrightarrow> followedByResponses xs \<and> responsesOnlyAfterCalls xs"
  using repaired_followed repaired_only invariant_repaired by blast

lemma repaired_fix: "repaired (fixToolCallsMessages msgs)"
  unfolding fixToolCallsMessages_def by (rule repaired_rebuild) (rule keyed_toolResponseMap)

lemma scenario2_fixed:
  "fixToolCallsMessages scenario2
     = [userMsg (js ''hi''), assistantCalls [callOf (js ''a'') (js ''f''), callOf (js ''b'') (js ''g'')],
        toolMsg (js ''a'') (js ''ok''), placeholderResponse (callOf (js ''b'') (js ''g''))]"
  by (simp add: fixToolCallsMessages_def toolResponseMap_def setResponse_def scenario2_def
      userMsg_def assistantCalls_def toolMsg_def callOf_def isToolResponse_def truthy_def
      hasToolCalls_def calls_def responseFor_def js_simps)

text \<open>
  Claim C1. In the output of \<open>fixToolCallsMessages\<close>, every assistant message that carries
  \<open>N\<close> tool calls is immediately followed by exactly \<open>N\<close> tool messages whose
  \<open>tool_call_id\<close>s are the call ids in listed order (the message after them, if any, is not
  a tool message), and every tool message of the output lies in such a block.
\<close>

theorem fixToolCallsMessages_ordering:
  "followedByResponses (fixToolCallsMessages msgs)
   \<and> responsesOnlyAfterCalls (fixToolCallsMessages msgs)"
  using repaired_fix[of msgs] by (simp add: repaired_iff)

theorem fixToolCallsMessages_ordering_witness:
  "hasToolCalls (fixToolCallsMessages scenario2 ! 1)
   \<and> map tool_call_id (take 2 (drop 2 (fixToolCallsMessages scenario2)))
       = [Some (js ''a''), Some (js ''b'')]
   \<and> map role (take 2 (drop 2 (fixToolCallsMessages scenario2))) = [Tool, Tool]
   \<and> drop 4 (fixToolCallsMessages scenario2) = []
   \<and> (\<exists>i<3. hasToolCalls (fixToolCallsMessages scenario2 ! i)
              \<and> 3 \<le> i + length (calls (fixToolCallsMessages scenario2 ! i)))"
proof -
  let ?out = "fixToolCallsMessages scenario2"
  have h: "1 < length ?out" "hasToolCalls (?out ! 1)"
    by (simp_all add: scenario2_fixed hasToolCalls_def calls_def assistantCalls_def)
  have t: "3 < length ?out" "role (?out ! 3) = Tool"
    by (simp_all add: scenario2_fixed placeholderResponse_def)
  have n: "calls (?out ! 1) = [callOf (js ''a'') (js ''f''), callOf (js ''b'') (js ''g'')]"
    by (simp add: scenario2_fixed calls_def assistantCalls_def)
  from fixToolCallsMessages_ordering[of scenario2]
  have f: "followedByResponses ?out" and o: "responsesOnlyAfterCalls ?out" by simp_all
  from f[unfolded followedByResponses_def, rule_format, OF h]
  have "answers (calls (?out ! 1)) (take 2 (drop 2 ?out))" "drop 4 ?out = []"
    by (simp_all add: Let_def scenario2_fixed calls_def assistantCalls_def)
  moreover from this(1) have "map tool_call_id (take 2 (drop 2 ?out)) = [Some (js ''a''), Some (js ''b'')]"
    and "map role (take 2 (drop 2 ?out)) = [Tool, Tool]"
    by (simp_all add: scenario2_fixed toolMsg_def placeholderResponse_def callOf_def)
  moreover note o[unfolded responsesOnlyAfterCalls_def, rule_format, OF t] h(2)
  ultimately show ?thesis by simp
qed

subsection \<open>The token estimator\<close>

lemma length_partTexts:
  "length (concat (map partText ps)) = sum_list (map partChars ps) + 512 * length (filter isImage ps)"
proof (induction ps)
  case Nil
  then show ?case by simp
next
  case (Cons p ps)
  then show ?case by (cases p) simp_all
qed

lemma length_contentText: "length (contentText c) = contentChars c + 512 * imageParts c"
  by (cases c) (simp_all add: contentText_def contentChars_def imageParts_def length_partTexts)

lemma length_callTexts: "length (concat (map toolCallText tcs)) = sum_list (map callChars tcs)"
  by (induction tcs) (simp_all add: toolCallText_def callChars_def split: option.splits)

lemma length_messageText:
  "length (messageText m) = countedChars m + 512 * imageParts (content m)"
  by (simp add: messageText_def countedChars_def length_contentText length_callTexts
      isToolResponse_def truthy_def split: option.splits)

lemma ceiling_quarter: "nat \<lceil>rat_of_nat n / 4\<rceil> = (n + 3) div 4"
proof -
  have "\<lceil>rat_of_nat n / 4\<rceil> = - \<lfloor>- (rat_of_int (int n)) / rat_of_int 4\<rfloor>"
    by (simp add: ceiling_def)
  also have "\<dots> = - ((- int n) div 4)"
    by (simp only: floor_divide_of_int_eq of_int_minus[symmetric])
  also have "\<dots> = (int n + 3) div 4" by presburger
  finally show ?thesis by (simp add: nat_div_distrib)
qed

lemma ceiling_quarter_real: "nat \<lceil>real n / 4\<rceil> = (n + 3) div 4"
proof -
  have "\<lceil>real n / 4\<rceil> = - \<lfloor>- (real_of_int (int n)) / real_of_int 4\<rfloor>"
    by (simp add: ceiling_def)
  also have "\<dots> = - ((- int n) div 4)"
    by (simp only: floor_divide_of_int_eq of_int_minus[symmetric])
  also have "\<dots> = (int n + 3) div 4" by presburger
  finally show ?thesis by (simp add: nat_div_distrib)
qed

lemma estimate_div: "estimateMessageTokens m = (length (messageText m) + 3) div 4 + 4"
  by (simp add: estimateMessageTokens_def ceiling_quarter)

text \<open>
  Claim C9. For every message the estimate is \<open>ceil(n / 4) + 4\<close>, a natural number, where
  \<open>n\<close> counts the characters of the content text, of the function names and serialized
  arguments of an assistant message's tool calls and of a tool message's \<open>tool_call_id\<close>,
  and every image part adds a fixed 128 on top.
\<close>

theorem estimateMessageTokens_formula:
  "estimateMessageTokens m
     = nat \<lceil>real (countedChars m) / 4\<rceil> + 128 * imageParts (content m) + 4"
  by (simp add: estimate_div length_messageText ceiling_quarter_real)

subsection \<open>The early exit of the truncation check\<close>

lemma exceeds_total:
  "\<not> gtNum acc target \<Longrightarrow>
   exceeds target ms acc = gtNum (acc + sum_list (map estimateMessageTokens ms)) target"
proof (induction ms arbitrary: acc)
  case Nil
  then show ?case by simp
next
  case (Cons m ms)
  show ?case
  proof (cases "gtNum (acc + estimateMessageTokens m) target")
    case True
    then have "gtNum (acc + estimateMessageTokens m + sum_list (map estimateMessageTokens ms)) target"
      by (cases target) (simp_all add: gtNum_def)
    with True show ?thesis by (simp add: add.assoc)
  next
    case False
    from Cons.IH[OF False] False show ?thesis by (simp add: add.assoc)
  qed
qed

lemma limit_values:
  assumes "getModelContextLimit model = Some l"
  shows "l \<in> {8192, 32768, 128000, 200000, 1000000}"
proof -
  have vals: "snd ` set MODEL_CONTEXT_LIMITS \<subseteq> {8192, 32768, 128000, 200000, 1000000}"
    by (simp add: MODEL_CONTEXT_LIMITS_def)
  have pm: "prefixMatch T model = Some k \<Longrightarrow> k \<in> snd ` set T" for T k
    by (induction T model rule: prefixMatch.induct) (auto split: if_splits)
  have fam: "familyLimit model \<in> {8192, 32768, 128000, 200000, 1000000}"
    by (simp add: familyLimit_def)
  show ?thesis
  proof (cases "map_of MODEL_CONTEXT_LIMITS model")
    case (Some k)
    then have "k \<in> snd ` set MODEL_CONTEXT_LIMITS" by (force dest: map_of_SomeD)
    with Some assms vals show ?thesis by (auto simp: getModelContextLimit_def)
  next
    case None
    show ?thesis
    proof (cases "prefixMatch MODEL_CONTEXT_LIMITS model")
      case (Some k)
      with pm have "k \<in> snd ` set MODEL_CONTEXT_LIMITS" by blast
      with Some None assms vals show ?thesis
        by (auto simp: getModelContextLimit_def split: if_splits)
    next
      case None2: None
      with None assms fam show ?thesis
        by (auto simp: getModelContextLimit_def split: if_splits)
    qed
  qed
qed

lemma reserved_floor:
  "\<lfloor>fmul 8192 (double (15 / 100))\<rfloor> = 1228"
  "\<lfloor>fmul 32768 (double (15 / 100))\<rfloor> = 4915"
  "\<lfloor>fmul 128000 (double (15 / 100))\<rfloor> = 19200"
  "\<lfloor>fmul 200000 (double (15 / 100))\<rfloor> = 30000"
  "\<lfloor>fmul 1000000 (double (15 / 100))\<rfloor> = 150000"
  by code_simp+

lemma reserved_values:
  "reserved 8192 = 4096"
  "reserved 32768 = 4915"
  "reserved 128000 = 19200"
  "reserved 200000 = 30000"
  "reserved 1000000 = 150000"
  unfolding reserved_def of_nat_numeral reserved_floor by simp_all

lemma target_values:
  "getDynamicTargetLimit model \<in> {NaN, Num 4096, Num 27853, Num 108800, Num 170000, Num 850000}"
proof (cases "getModelContextLimit model")
  case None
  then show ?thesis by (simp add: getDynamicTargetLimit_def)
next
  case (Some l)
  from limit_values[OF Some] show ?thesis
    by (auto simp: getDynamicTargetLimit_def Some reserved_values)
qed

lemma target_not_below_zero: "\<not> gtNum 0 (getDynamicTargetLimit model)"
  using target_values[of model] by (auto simp: gtNum_def)

text \<open>
  Claim C10. \<open>needsTruncation\<close>, which leaves its loop at the first prefix sum above the
  target, agrees with comparing the full total of \<open>getTotalTokens\<close> against
  \<open>getDynamicTargetLimit\<close>: estimates are natural numbers, so a prefix sum above the target
  stays above it, and the target itself is never negative.
\<close>

theorem needsTruncation_iff:
  "needsTruncation msgs model \<longleftrightarrow> gtNum (getTotalTokens msgs) (getDynamicTargetLimit model)"
  by (simp add: needsTruncation_def getTotalTokens_sum exceeds_total[OF target_not_below_zero])

subsection \<open>Resolution of the context window\<close>

lemma prefixMatch_first:
  "i < length L \<Longrightarrow> prefixKey model (fst (L ! i)) \<Longrightarrow> (\<forall>j<i. \<not> prefixKey model (fst (L ! j)))
   \<Longrightarrow> prefixMatch L model = Some (snd (L ! i))"
proof (induction L arbitrary: i)
  case Nil
  then show ?case by simp
next
  case (Cons e L)
  obtain k limit where e: "e = (k, limit)" by (cases e)
  show ?case
  proof (cases i)
    case 0
    with Cons.prems e show ?thesis by (simp add: prefixKey_def)
  next
    case (Suc n)
    from Cons.prems Suc have "\<not> prefixKey model k" using e by auto
    moreover have "prefixMatch L model = Some (snd (L ! n))"
    proof (rule Cons.IH)
      show "n < length L" using Cons.prems(1) Suc by simp
      show "prefixKey model (fst (L ! n))" using Cons.prems(2) Suc by simp
      show "\<forall>j<n. \<not> prefixKey model (fst (L ! j))"
      proof (intro allI impI)
        fix j assume "j < n"
        then have "Suc j < i" using Suc by simp
        with Cons.prems(3) have "\<not> prefixKey model (fst ((e # L) ! Suc j))" by blast
        then show "\<not> prefixKey model (fst (L ! j))" by simp
      qed
    qed
    ultimately show ?thesis using e Suc by (auto simp add: prefixKey_def)
  qed
qed

lemma prefixMatch_none:
  "(\<forall>i<length L. \<not> prefixKey model (fst (L ! i))) \<Longrightarrow> prefixMatch L model = None"
proof (induction L)
  case Nil
  then show ?case by simp
next
  case (Cons e L)
  obtain k limit where e: "e = (k, limit)" by (cases e)
  from Cons.prems have "\<not> prefixKey model (fst ((e # L) ! 0))" by blast
  then have h: "\<not> prefixKey model k" using e by simp
  have "\<forall>i<length L. \<not> prefixKey model (fst (L ! i))"
  proof (intro allI impI)
    fix i assume "i < length L"
    then have "Suc i < length (e # L)" by simp
    with Cons.prems have "\<not> prefixKey model (fst ((e # L) ! Suc i))" by blast
    then show "\<not> prefixKey model (fst (L ! i))" by simp
  qed
  with Cons.IH h e show ?case by (simp add: prefixKey_def)
qed

lemma distinct_keys: "distinct (map fst MODEL_CONTEXT_LIMITS)"
  by (simp add: MODEL_CONTEXT_LIMITS_def)

text \<open>
  What \<open>getModelContextLimit\<close> computes. For a model identifier that is not the name of a
  member inherited from \<open>Object.prototype\<close>: an identifier that is a key of the table gets
  that entry's limit; otherwise the first entry in table order (the entry \<open>default\<close> apart)
  whose key the identifier starts with decides; otherwise the family heuristics (claude,
  gemini, gpt-4, gpt-5, o-series) decide, and the limit is 128000 when none applies.
\<close>

lemma getModelContextLimit_resolution:
  assumes "model \<notin> set inheritedKeys"
  shows "(\<forall>limit. (model, limit) \<in> set MODEL_CONTEXT_LIMITS \<longrightarrow> getModelContextLimit model = Some limit)
       \<and> (model \<notin> fst ` set MODEL_CONTEXT_LIMITS \<longrightarrow>
            (\<forall>i. prefixEntry model i \<and> (\<forall>j<i. \<not> prefixEntry model j) \<longrightarrow>
                 getModelContextLimit model = Some (snd (MODEL_CONTEXT_LIMITS ! i))))
       \<and> (model \<notin> fst ` set MODEL_CONTEXT_LIMITS \<and> (\<forall>i. \<not> prefixEntry model i) \<longrightarrow>
            getModelContextLimit model =
              Some (if includesStr model (js ''claude'') then 200000
                    else if includesStr model (js ''gemini'') then 1000000
                    else if includesStr model (js ''gpt-4'') then 128000
                    else if includesStr model (js ''gpt-5'') then 128000
                    else if startsWith model (js ''o1'') \<or> startsWith model (js ''o3'')
                            \<or> startsWith model (js ''o4'') then 200000
                    else 128000))"
proof (intro conjI allI impI)
  fix limit assume "(model, limit) \<in> set MODEL_CONTEXT_LIMITS"
  then have "map_of MODEL_CONTEXT_LIMITS model = Some limit"
    using distinct_keys by (rule map_of_is_SomeI[rotated])
  then show "getModelContextLimit model = Some limit" by (simp add: getModelContextLimit_def)
next
  fix i
  assume nk: "model \<notin> fst ` set MODEL_CONTEXT_LIMITS"
    and i: "prefixEntry model i \<and> (\<forall>j<i. \<not> prefixEntry model j)"
  from nk have none: "map_of MODEL_CONTEXT_LIMITS model = None" by (simp add: map_of_eq_None_iff)
  from i have "prefixMatch MODEL_CONTEXT_LIMITS model = Some (snd (MODEL_CONTEXT_LIMITS ! i))"
    by (intro prefixMatch_first) (auto simp: prefixEntry_def)
  with none assms show "getModelContextLimit model = Some (snd (MODEL_CONTEXT_LIMITS ! i))"
    by (simp add: getModelContextLimit_def)
next
  assume h: "model \<notin> fst ` set MODEL_CONTEXT_LIMITS \<and> (\<forall>i. \<not> prefixEntry model i)"
  then have none: "map_of MODEL_CONTEXT_LIMITS model = None" by (simp add: map_of_eq_None_iff)
  from h have "prefixMatch MODEL_CONTEXT_LIMITS model = None"
    by (intro prefixMatch_none) (auto simp: prefixEntry_def)
  with none assms show "getModelContextLimit model =
              Some (if includesStr model (js ''claude'') then 200000
                    else if includesStr model (js ''gemini'') then 1000000
                    else if includesStr model (js ''gpt-4'') then 128000
                    else if includesStr model (js ''gpt-5'') then 128000
                    else if startsWith model (js ''o1'') \<or> startsWith model (js ''o3'')
                            \<or> startsWith model (js ''o4'') then 200000
                    else 128000)"
    by (simp add: getModelContextLimit_def familyLimit_def)
qed

lemma dated_not_key: "js ''gpt-4o-2024-08-06'' \<notin> fst ` set MODEL_CONTEXT_LIMITS"
  by (simp add: MODEL_CONTEXT_LIMITS_def)

lemma dated_not_inherited: "js ''gpt-4o-2024-08-06'' \<notin> set inheritedKeys"
  by (simp add: inheritedKeys_def)

lemma getModelContextLimit_resolution_example:
  "js ''gpt-4o-2024-08-06'' \<notin> set inheritedKeys
   \<and> js ''gpt-4o-2024-08-06'' \<notin> fst ` set MODEL_CONTEXT_LIMITS
   \<and> prefixEntry (js ''gpt-4o-2024-08-06'') 0
   \<and> getModelContextLimit (js ''gpt-4o-2024-08-06'') = Some 8192"
proof -
  have p: "prefixEntry (js ''gpt-4o-2024-08-06'') 0"
    by (simp add: prefixEntry_def prefixKey_def startsWith_js MODEL_CONTEXT_LIMITS_def)
  have v: "snd (MODEL_CONTEXT_LIMITS ! 0) = 8192" by (simp add: MODEL_CONTEXT_LIMITS_def)
  from getModelContextLimit_resolution[OF dated_not_inherited] dated_not_key p
  have "getModelContextLimit (js ''gpt-4o-2024-08-06'') = Some (snd (MODEL_CONTEXT_LIMITS ! 0))"
    by blast
  with p v dated_not_key dated_not_inherited show ?thesis by simp
qed

lemma includesStr_js:
  "includesStr (js []) (js p) = (p = [])"
  "includesStr (js (c # cs)) (js p) = (take (length p) (c # cs) = p \<or> includesStr (js cs) (js p))"
proof -
  show "includesStr (js []) (js p) = (p = [])" by (simp add: js_simps)
  have "includesStr (js (c # cs)) (js p)
          = (startsWith (js (c # cs)) (js p) \<or> includesStr (js cs) (js p))"
    by (simp add: js_simps)
  then show "includesStr (js (c # cs)) (js p)
          = (take (length p) (c # cs) = p \<or> includesStr (js cs) (js p))"
    by (simp only: startsWith_js)
qed

lemma dated_gpt4o_limit: "getModelContextLimit (js ''gpt-4o-2024-08-06'') = Some 8192"
  by (simp add: getModelContextLimit_def MODEL_CONTEXT_LIMITS_def inheritedKeys_def startsWith_js)

lemma dated_gpt4o_claimed: "claimedContextLimit (js ''gpt-4o-2024-08-06'') = 128000"
  by (simp add: claimedContextLimit_def MODEL_CONTEXT_LIMITS_def prefixKey_def startsWith_js)

lemma gpt4o_entry: "getModelContextLimit (js ''gpt-4o'') = Some 128000"
  by (simp add: getModelContextLimit_def MODEL_CONTEXT_LIMITS_def)

lemma prefixed_gpt4o_limit: "getModelContextLimit (js ''x-gpt-4o-2024-08-06'') = Some 128000"
  by (simp add: getModelContextLimit_def MODEL_CONTEXT_LIMITS_def inheritedKeys_def startsWith_js
      familyLimit_def includesStr_js)

text \<open>
  Claim C2 at a failing input. The claim resolves an identifier that is no key of the table
  by its longest matching prefix. \<open>gpt-4o-2024-08-06\<close> is no key; its longest matching key
  is \<open>gpt-4o\<close>, which the table sets to 128000, and that is what the words of the claim
  give. The loop over the entries returns at the first key the identifier starts with,
  \<open>gpt-4\<close>, so the code answers 8192 and the dynamic target becomes 4096. The family
  heuristic of the same function gives 128000 to a name that contains \<open>gpt-4\<close> and starts
  with no key, such as \<open>x-gpt-4o-2024-08-06\<close>.
\<close>

theorem getModelContextLimit_first_prefix_wins:
  "getModelContextLimit (js ''gpt-4o-2024-08-06'') = Some 8192
   \<and> claimedContextLimit (js ''gpt-4o-2024-08-06'') = 128000
   \<and> getModelContextLimit (js ''gpt-4o'') = Some 128000
   \<and> getModelContextLimit (js ''x-gpt-4o-2024-08-06'') = Some 128000
   \<and> getDynamicTargetLimit (js ''gpt-4o-2024-08-06'') = Num 4096"
  by (simp add: dated_gpt4o_limit dated_gpt4o_claimed gpt4o_entry prefixed_gpt4o_limit
      getDynamicTargetLimit_def reserved_values)

subsection \<open>The sanitizer\<close>

text \<open>
  Claim C4, as the code has it. For an id that keeps at least one character of
  \<open>[A-Za-z0-9_-]\<close>, the result is the id with every other character removed, whatever the
  clock and the random generator say: two invocations agree.
\<close>

theorem sanitizeToolId_pure:
  assumes "filter keptChar ident \<noteq> []"
  shows "sanitizeToolId e ident = filter keptChar ident
       \<and> sanitizeToolId e' ident = sanitizeToolId e ident"
  using assms by (auto simp: sanitizeToolId_def Let_def)

theorem sanitizeToolId_pure_witness:
  "filter keptChar (js ''x!1'') \<noteq> []
   \<and> sanitizeToolId env1 (js ''x!1'') = js ''x1''
   \<and> sanitizeToolId env2 (js ''x!1'') = sanitizeToolId env1 (js ''x!1'')"
proof -
  have f: "filter keptChar (js ''x!1'') = js ''x1''"
    by (simp add: keptChar_def wordChar_def js_simps)
  then have n: "filter keptChar (js ''x!1'') \<noteq> []" by (simp add: js_simps)
  from sanitizeToolId_pure[OF n, of env1 env2] f n show ?thesis by simp
qed

text \<open>
  The claim as stated covers every non-empty id. The id \<open>!\<close> is not empty, loses all its
  characters, and gets a fallback that differs between two invocations.
\<close>

theorem sanitizeToolId_fallback_counterexample:
  "js ''!'' \<noteq> [] \<and> sanitizeToolId env1 (js ''!'') \<noteq> sanitizeToolId env2 (js ''!'')"
  by (simp add: sanitizeToolId_def fallbackId_def env1_def env2_def keptChar_def wordChar_def
      slice_def sliceIndex_def js_simps)

subsection \<open>A conversation within budget\<close>

text \<open>
  Claim C7. When the total estimate is at most the target (the explicit one, or the dynamic
  limit of the model), the fitter returns the input unchanged, with nothing removed, nothing
  compressed and both token totals equal to the estimate.
\<close>

theorem truncateMessagesSmart_within_budget:
  assumes "leNum (getTotalTokens msgs)
             (case targetTokens of Some t \<Rightarrow> t | None \<Rightarrow> getDynamicTargetLimit model)"
  shows "truncateMessagesSmart msgs model targetTokens
           = \<lparr> messages = msgs, originalTokens = getTotalTokens msgs,
               truncatedTokens = getTotalTokens msgs, removedCount = 0, compressedCount = 0 \<rparr>"
  using assms by (simp add: truncateMessagesSmart_def getTotalTokens_sum Let_def)

lemma scenario4_total: "getTotalTokens scenario4 = 5000"
  by (simp add: getTotalTokens_sum estimate_div messageText_def contentText_def scenario4_def
      userMsg_def isToolResponse_def)

lemma gpt4o_target: "getDynamicTargetLimit (js ''gpt-4o'') = Num 108800"
  by (simp add: getDynamicTargetLimit_def getModelContextLimit_def MODEL_CONTEXT_LIMITS_def
      reserved_values)

theorem truncateMessagesSmart_within_budget_witness:
  "leNum (getTotalTokens scenario4) (Num 10000)
   \<and> leNum (getTotalTokens scenario4) (getDynamicTargetLimit (js ''gpt-4o''))
   \<and> truncateMessagesSmart scenario4 (js ''gpt-4o'') (Some (Num 10000))
       = \<lparr> messages = scenario4, originalTokens = 5000, truncatedTokens = 5000,
           removedCount = 0, compressedCount = 0 \<rparr>
   \<and> truncateMessagesSmart scenario4 (js ''gpt-4o'') None
       = \<lparr> messages = scenario4, originalTokens = 5000, truncatedTokens = 5000,
           removedCount = 0, compressedCount = 0 \<rparr>"
proof -
  have a: "leNum (getTotalTokens scenario4)
             (case Some (Num 10000) of Some t \<Rightarrow> t | None \<Rightarrow> getDynamicTargetLimit (js ''gpt-4o''))"
    by (simp add: scenario4_total leNum_def)
  have b: "leNum (getTotalTokens scenario4)
             (case None of Some t \<Rightarrow> t | None \<Rightarrow> getDynamicTargetLimit (js ''gpt-4o''))"
    by (simp add: scenario4_total gpt4o_target leNum_def)
  from truncateMessagesSmart_within_budget[OF a] truncateMessagesSmart_within_budget[OF b] a b
  show ?thesis by (simp add: scenario4_total)
qed

subsection \<open>The must-keep tool-call chain\<close>

lemma keepChain_scan:
  assumes "category (items ! l) = CatToolContext"
  shows "n \<le> Suc l \<Longrightarrow>
         keepChain items l n keep
           = keep \<union> {index (items ! i) | i. i < n \<and> category (items ! i) = CatToolContext
                        \<and> (\<forall>j. i < j \<and> j < n \<longrightarrow> category (items ! j) \<noteq> CatRegular)}"
proof (induction n arbitrary: keep)
  case 0
  then show ?case by simp
next
  case (Suc n)
  let ?S = "\<lambda>n. {index (items ! i) | i. i < n \<and> category (items ! i) = CatToolContext
                        \<and> (\<forall>j. i < j \<and> j < n \<longrightarrow> category (items ! j) \<noteq> CatRegular)}"
  from Suc.prems have nl: "n \<le> Suc l" and n: "n \<le> l" by simp_all
  show ?case
  proof (cases "category (items ! n)")
    case CatToolContext
    have "?S (Suc n) = insert (index (items ! n)) (?S n)"
    proof (intro set_eqI iffI)
      fix x assume "x \<in> ?S (Suc n)"
      then obtain i where i: "x = index (items ! i)" "i < Suc n" "category (items ! i) = CatToolContext"
        "\<forall>j. i < j \<and> j < Suc n \<longrightarrow> category (items ! j) \<noteq> CatRegular" by blast
      show "x \<in> insert (index (items ! n)) (?S n)"
      proof (cases "i = n")
        case True
        with i show ?thesis by simp
      next
        case False
        with i have "i < n" by simp
        moreover from i(4) have "\<forall>j. i < j \<and> j < n \<longrightarrow> category (items ! j) \<noteq> CatRegular" by simp
        ultimately show ?thesis using i(1,3) by blast
      qed
    next
      fix x assume "x \<in> insert (index (items ! n)) (?S n)"
      then consider "x = index (items ! n)" | "x \<in> ?S n" by blast
      then show "x \<in> ?S (Suc n)"
      proof cases
        case 1
        with CatToolContext show ?thesis by (intro CollectI exI[of _ n]) auto
      next
        case 2
        then obtain i where i: "x = index (items ! i)" "i < n" "category (items ! i) = CatToolContext"
          "\<forall>j. i < j \<and> j < n \<longrightarrow> category (items ! j) \<noteq> CatRegular" by blast
        have "\<forall>j. i < j \<and> j < Suc n \<longrightarrow> category (items ! j) \<noteq> CatRegular"
        proof (intro allI impI)
          fix j assume "i < j \<and> j < Suc n"
          then show "category (items ! j) \<noteq> CatRegular"
            using i(4) CatToolContext by (cases "j = n") auto
        qed
        with i show ?thesis by (intro CollectI exI[of _ i]) simp
      qed
    qed
    with CatToolContext Suc.IH[OF nl] show ?thesis by simp
  next
    case CatRegular
    have "n \<noteq> l" using CatRegular assms by auto
    with n have lt: "n < l" by simp
    have e: "?S (Suc n) = {}"
    proof -
      have False if "i < Suc n" "category (items ! i) = CatToolContext"
        "\<forall>j. i < j \<and> j < Suc n \<longrightarrow> category (items ! j) \<noteq> CatRegular" for i
      proof (cases "i = n")
        case True
        with that CatRegular show False by simp
      next
        case False
        with that(1) have "i < n \<and> n < Suc n" by simp
        with that(3) CatRegular show False by blast
      qed
      then show ?thesis by blast
    qed
    have k: "keepChain items l (Suc n) keep = keep" using CatRegular lt by simp
    show ?thesis unfolding k e by simp
  next
    case CatSystem
    have "?S (Suc n) = ?S n"
    proof (intro set_eqI iffI)
      fix x assume "x \<in> ?S (Suc n)"
      then obtain i where i: "x = index (items ! i)" "i < Suc n" "category (items ! i) = CatToolContext"
        "\<forall>j. i < j \<and> j < Suc n \<longrightarrow> category (items ! j) \<noteq> CatRegular" by blast
      from i(3) CatSystem have "i \<noteq> n" by auto
      with i(2) have "i < n" by simp
      moreover from i(4) have "\<forall>j. i < j \<and> j < n \<longrightarrow> category (items ! j) \<noteq> CatRegular" by simp
      ultimately show "x \<in> ?S n" using i(1,3) by blast
    next
      fix x assume "x \<in> ?S n"
      then obtain i where i: "x = index (items ! i)" "i < n" "category (items ! i) = CatToolContext"
        "\<forall>j. i < j \<and> j < n \<longrightarrow> category (items ! j) \<noteq> CatRegular" by blast
      have "\<forall>j. i < j \<and> j < Suc n \<longrightarrow> category (items ! j) \<noteq> CatRegular"
      proof (intro allI impI)
        fix j assume "i < j \<and> j < Suc n"
        then show "category (items ! j) \<noteq> CatRegular"
          using i(4) CatSystem by (cases "j = n") auto
      qed
      with i show "x \<in> ?S (Suc n)" by (intro CollectI exI[of _ i]) simp
    qed
    with CatSystem Suc.IH[OF nl] show ?thesis by simp
  qed
qed

lemma findLastTool_None:
  "findLastTool items n = None \<longleftrightarrow> (\<forall>i<n. category (items ! i) \<noteq> CatToolContext)"
  by (induction n) (auto simp: less_Suc_eq)

lemma findLastTool_Some:
  "findLastTool items n = Some l \<Longrightarrow>
     l < n \<and> category (items ! l) = CatToolContext
     \<and> (\<forall>j. l < j \<and> j < n \<longrightarrow> category (items ! j) \<noteq> CatToolContext)"
  by (induction n) (auto simp: less_Suc_eq split: if_splits)

lemma compressToolResult_role: "role (compressToolResult m k) = role m"
  by (simp add: compressToolResult_def Let_def)

lemma compressItem_fields:
  "index (compressItem it) = index it"
  "category (compressItem it) = category it"
  "role (msg (compressItem it)) = role (msg it)"
  by (simp_all add: compressItem_def Let_def compressToolResult_role)

lemma length_categorized: "length (categorized msgs) = length msgs"
  by (simp add: categorized_def)

lemma nth_categorized:
  "i < length msgs \<Longrightarrow>
   categorized msgs ! i = \<lparr> msg = msgs ! i, category = categorizeMessage (msgs ! i),
                             tokens = estimateMessageTokens (msgs ! i), index = i \<rparr>"
  by (simp add: categorized_def)

lemma compressed_fields:
  assumes "i < length msgs"
  shows "index (map compressItem (categorized msgs) ! i) = i"
    and "category (map compressItem (categorized msgs) ! i) = categorizeMessage (msgs ! i)"
    and "role (msg (map compressItem (categorized msgs) ! i)) = role (msgs ! i)"
  using assms by (simp_all add: length_categorized compressItem_fields nth_categorized)

lemma keepChain_acc: "keepChain items l n keep = keep \<union> keepChain items l n {}"
proof (induction n arbitrary: keep)
  case 0
  then show ?case by simp
next
  case (Suc n)
  have "keepChain items l n (insert x keep) = insert x keep \<union> keepChain items l n {}" for x
    by (rule Suc.IH)
  moreover have "keepChain items l n {x} = {x} \<union> keepChain items l n {}" for x
    by (rule Suc.IH)
  moreover have "keepChain items l n keep = keep \<union> keepChain items l n {}"
    by (rule Suc.IH)
  ultimately show ?case by auto
qed

lemma mustKeepSet_parts:
  "mustKeepSet items = keepLastUser items (length items) (keepSystem items \<union> toolChain items)"
proof (cases "lastToolIndex items")
  case None
  then show ?thesis by (simp add: mustKeepSet_def toolChain_def)
next
  case (Some l)
  then show ?thesis
    using keepChain_acc[of items l "Suc l" "keepSystem items"]
    by (simp add: mustKeepSet_def toolChain_def)
qed

lemma toolChain_closed:
  assumes idx: "\<forall>i<length items. index (items ! i) = i"
  shows "toolChain items
           = {i. i < length items \<and> category (items ! i) = CatToolContext
                 \<and> (\<forall>j k. i < j \<and> j < k \<and> k < length items \<and> category (items ! j) = CatRegular
                          \<longrightarrow> category (items ! k) \<noteq> CatToolContext)}"
    (is "_ = ?R")
proof (cases "lastToolIndex items")
  case None
  then have "\<forall>i<length items. category (items ! i) \<noteq> CatToolContext"
    by (simp add: lastToolIndex_def findLastTool_None)
  then have "?R = {}" by blast
  with None show ?thesis by (simp add: toolChain_def)
next
  case (Some l)
  from findLastTool_Some[OF Some[unfolded lastToolIndex_def]]
  have l: "l < length items" "category (items ! l) = CatToolContext"
    and last: "\<forall>j. l < j \<and> j < length items \<longrightarrow> category (items ! j) \<noteq> CatToolContext"
    by simp_all
  let ?S = "{index (items ! i) | i. i < Suc l \<and> category (items ! i) = CatToolContext
                        \<and> (\<forall>j. i < j \<and> j < Suc l \<longrightarrow> category (items ! j) \<noteq> CatRegular)}"
  have "toolChain items = ?S"
    using keepChain_scan[OF l(2), of "Suc l" "{}"] Some by (simp add: toolChain_def)
  also have "?S = ?R"
  proof (intro set_eqI iffI)
    fix x assume "x \<in> ?S"
    then obtain i where i: "x = index (items ! i)" "i < Suc l" "category (items ! i) = CatToolContext"
      "\<forall>j. i < j \<and> j < Suc l \<longrightarrow> category (items ! j) \<noteq> CatRegular" by blast
    from i(2) l(1) have il: "i < length items" by simp
    with idx i(1) have xi: "x = i" by simp
    have "category (items ! k) \<noteq> CatToolContext"
      if "i < j \<and> j < k \<and> k < length items \<and> category (items ! j) = CatRegular" for j k
    proof -
      from that i(4) have "\<not> j < Suc l" by blast
      then have "l < k" using that by simp
      with last that show ?thesis by blast
    qed
    with il i(3) xi show "x \<in> ?R" by blast
  next
    fix x assume "x \<in> ?R"
    then have x: "x < length items" "category (items ! x) = CatToolContext"
      "\<forall>j k. x < j \<and> j < k \<and> k < length items \<and> category (items ! j) = CatRegular
                          \<longrightarrow> category (items ! k) \<noteq> CatToolContext" by blast+
    have xl: "x < Suc l"
    proof (rule ccontr)
      assume "\<not> x < Suc l"
      then have "l < x" by simp
      with last x(1,2) show False by blast
    qed
    have "category (items ! j) \<noteq> CatRegular" if "x < j \<and> j < Suc l" for j
    proof
      assume r: "category (items ! j) = CatRegular"
      with l(2) have "j \<noteq> l" by auto
      with that have "j < l" by simp
      with x(3) that r l show False by blast
    qed
    moreover from idx x(1) have "x = index (items ! x)" by simp
    ultimately show "x \<in> ?S" using xl x(2) by blast
  qed
  finally show ?thesis .
qed

lemma small_estimates:
  "estimateMessageTokens (userMsg (js ''list the files'')) = 8"
  "estimateMessageTokens (assistantCalls [callOf (js ''a'') (js ''ls'')]) = 5"
  "estimateMessageTokens (toolMsg (js ''a'') (js ''README.md'')) = 7"
  "estimateMessageTokens (userMsg (js ''thanks'')) = 6"
  "estimateMessageTokens (systemMsg (js ''be brief'')) = 6"
  by (simp_all add: estimate_div messageText_def contentText_def toolCallText_def userMsg_def
      assistantCalls_def toolMsg_def systemMsg_def callOf_def calls_def isToolResponse_def
      truthy_def)

lemma small_categories:
  "categorizeMessage (userMsg t) = CatRegular"
  "categorizeMessage (systemMsg t) = CatSystem"
  "categorizeMessage (toolMsg i t) = CatToolContext"
  "categorizeMessage (assistantCalls (tc # tcs)) = CatToolContext"
  by (simp_all add: categorizeMessage_def userMsg_def systemMsg_def toolMsg_def
      assistantCalls_def calls_def)

lemma compressItem_small: "tokens it \<le> 8000 \<Longrightarrow> compressItem it = it"
  by (simp add: compressItem_def)

lemma chainThenUser_items:
  "map compressItem (categorized chainThenUser)
     = [\<lparr> msg = userMsg (js ''list the files''), category = CatRegular, tokens = 8, index = 0 \<rparr>,
        \<lparr> msg = assistantCalls [callOf (js ''a'') (js ''ls'')], category = CatToolContext,
          tokens = 5, index = 1 \<rparr>,
        \<lparr> msg = toolMsg (js ''a'') (js ''README.md''), category = CatToolContext, tokens = 7,
          index = 2 \<rparr>,
        \<lparr> msg = userMsg (js ''thanks''), category = CatRegular, tokens = 6, index = 3 \<rparr>]"
  by (simp add: categorized_def chainThenUser_def upt_rec_numeral small_estimates
      small_categories compressItem_small)

lemma chainAcrossSystem_items:
  "map compressItem (categorized chainAcrossSystem)
     = [\<lparr> msg = assistantCalls [callOf (js ''a'') (js ''ls'')], category = CatToolContext,
          tokens = 5, index = 0 \<rparr>,
        \<lparr> msg = systemMsg (js ''be brief''), category = CatSystem, tokens = 6, index = 1 \<rparr>,
        \<lparr> msg = toolMsg (js ''a'') (js ''README.md''), category = CatToolContext, tokens = 7,
          index = 2 \<rparr>]"
  by (simp add: categorized_def chainAcrossSystem_def upt_rec_numeral small_estimates
      small_categories compressItem_small)

text \<open>
  Claim C3, as the code has it. The chain that the second rule adds to the must-keep set is
  found by scanning backward from the last tool-context message of the conversation, wherever
  it stands: every tool-context message met is added, a system message is passed over, and
  the scan ends at the first regular message. So message \<open>i\<close> belongs to the chain exactly when
  it is tool-context and no regular message stands between it and a later tool-context
  message; a conversation without tool-context messages gets no chain. The must-keep set is
  the system messages, this chain and the last user message.
\<close>

theorem toolChain_scan:
  "toolChain (map compressItem (categorized msgs))
     = {i. i < length msgs \<and> categorizeMessage (msgs ! i) = CatToolContext
           \<and> (\<forall>j k. i < j \<and> j < k \<and> k < length msgs \<and> categorizeMessage (msgs ! j) = CatRegular
                    \<longrightarrow> categorizeMessage (msgs ! k) \<noteq> CatToolContext)}
   \<and> mustKeepSet (map compressItem (categorized msgs))
       = keepLastUser (map compressItem (categorized msgs)) (length msgs)
           (keepSystem (map compressItem (categorized msgs))
            \<union> toolChain (map compressItem (categorized msgs)))"
proof -
  define C where "C = map compressItem (categorized msgs)"
  have len: "length C = length msgs" by (simp add: C_def length_categorized)
  have idx: "\<forall>i<length C. index (C ! i) = i"
  proof (intro allI impI)
    fix i assume "i < length C"
    then have "i < length msgs" by (simp only: len)
    then show "index (C ! i) = i" unfolding C_def by (rule compressed_fields(1))
  qed
  have cat: "category (C ! i) = categorizeMessage (msgs ! i)" if "i < length msgs" for i
    unfolding C_def using that by (rule compressed_fields(2))
  have "{i. i < length C \<and> category (C ! i) = CatToolContext
           \<and> (\<forall>j k. i < j \<and> j < k \<and> k < length C \<and> category (C ! j) = CatRegular
                    \<longrightarrow> category (C ! k) \<noteq> CatToolContext)}
      = {i. i < length msgs \<and> categorizeMessage (msgs ! i) = CatToolContext
           \<and> (\<forall>j k. i < j \<and> j < k \<and> k < length msgs \<and> categorizeMessage (msgs ! j) = CatRegular
                    \<longrightarrow> categorizeMessage (msgs ! k) \<noteq> CatToolContext)}"
    unfolding len
  proof (intro set_eqI iffI CollectI; elim CollectE conjE; intro conjI allI impI)
    fix x j k
    assume "\<forall>j k. x < j \<and> j < k \<and> k < length msgs \<and> category (C ! j) = CatRegular
                    \<longrightarrow> category (C ! k) \<noteq> CatToolContext"
      and "x < j \<and> j < k \<and> k < length msgs \<and> categorizeMessage (msgs ! j) = CatRegular"
    moreover from this(2) have "j < length msgs" "k < length msgs" by simp_all
    ultimately show "categorizeMessage (msgs ! k) \<noteq> CatToolContext"
      using cat[of j] cat[of k] by metis
  next
    fix x j k
    assume "\<forall>j k. x < j \<and> j < k \<and> k < length msgs \<and> categorizeMessage (msgs ! j) = CatRegular
                    \<longrightarrow> categorizeMessage (msgs ! k) \<noteq> CatToolContext"
      and "x < j \<and> j < k \<and> k < length msgs \<and> category (C ! j) = CatRegular"
    moreover from this(2) have "j < length msgs" "k < length msgs" by simp_all
    ultimately show "category (C ! k) \<noteq> CatToolContext"
      using cat[of j] cat[of k] by metis
  qed (simp_all add: cat)
  with toolChain_closed[OF idx]
  have "toolChain C
     = {i. i < length msgs \<and> categorizeMessage (msgs ! i) = CatToolContext
           \<and> (\<forall>j k. i < j \<and> j < k \<and> k < length msgs \<and> categorizeMessage (msgs ! j) = CatRegular
                    \<longrightarrow> categorizeMessage (msgs ! k) \<noteq> CatToolContext)}"
    by simp
  moreover have "mustKeepSet C = keepLastUser C (length msgs) (keepSystem C \<union> toolChain C)"
    using mustKeepSet_parts[of C] by (simp add: len)
  ultimately show ?thesis unfolding C_def by blast
qed

text \<open>
  The claim as stated scans from the end of the conversation and stops at the first message
  that is not tool-context. In \<open>chainThenUser\<close> the last message is a user message, yet the
  call and its response before it are added; in \<open>chainAcrossSystem\<close> the scan passes over the
  system message and adds the call behind it.
\<close>

theorem toolChain_counterexample:
  "category (last (map compressItem (categorized chainThenUser))) \<noteq> CatToolContext
   \<and> claimedChain (map compressItem (categorized chainThenUser)) = {}
   \<and> toolChain (map compressItem (categorized chainThenUser)) = {1, 2}
   \<and> claimedChain (map compressItem (categorized chainAcrossSystem)) = {2}
   \<and> toolChain (map compressItem (categorized chainAcrossSystem)) = {0, 2}"
  by (simp add: chainThenUser_items chainAcrossSystem_items claimedChain_def toolChain_def
      lastToolIndex_def numeral_3_eq_3 numeral_2_eq_2 eval_nat_numeral insert_commute)

theorem toolChain_scan_witness:
  "categorizeMessage (chainThenUser ! 1) = CatToolContext
   \<and> categorizeMessage (last chainThenUser) = CatRegular
   \<and> 1 \<in> toolChain (map compressItem (categorized chainThenUser))
   \<and> 0 \<notin> toolChain (map compressItem (categorized chainThenUser))"
proof -
  have len: "length chainThenUser = 4" by (simp add: chainThenUser_def)
  have c: "categorizeMessage (chainThenUser ! 0) = CatRegular"
    "categorizeMessage (chainThenUser ! 1) = CatToolContext"
    "categorizeMessage (chainThenUser ! 2) = CatToolContext"
    "categorizeMessage (chainThenUser ! 3) = CatRegular"
    "categorizeMessage (last chainThenUser) = CatRegular"
    by (simp_all add: chainThenUser_def small_categories)
  have h: "\<forall>j k. 1 < j \<and> j < k \<and> k < length chainThenUser
                  \<and> categorizeMessage (chainThenUser ! j) = CatRegular
             \<longrightarrow> categorizeMessage (chainThenUser ! k) \<noteq> CatToolContext"
  proof (intro allI impI)
    fix j k
    assume a: "1 < j \<and> j < k \<and> k < length chainThenUser
                  \<and> categorizeMessage (chainThenUser ! j) = CatRegular"
    then have "j = 2" using len by arith
    with a c(3) show "categorizeMessage (chainThenUser ! k) \<noteq> CatToolContext" by simp
  qed
  from toolChain_scan[of chainThenUser]
  have eq: "toolChain (map compressItem (categorized chainThenUser))
     = {i. i < length chainThenUser \<and> categorizeMessage (chainThenUser ! i) = CatToolContext
           \<and> (\<forall>j k. i < j \<and> j < k \<and> k < length chainThenUser
                    \<and> categorizeMessage (chainThenUser ! j) = CatRegular
                    \<longrightarrow> categorizeMessage (chainThenUser ! k) \<noteq> CatToolContext)}"
    by (rule conjunct1)
  have "1 \<in> toolChain (map compressItem (categorized chainThenUser))"
    unfolding eq using len c(2) h by simp
  moreover have "0 \<notin> toolChain (map compressItem (categorized chainThenUser))"
    unfolding eq using c(1) by simp
  ultimately show ?thesis using c by simp
qed

subsection \<open>The output of the budget fitter\<close>

lemma map_index_compressed:
  "map index (map compressItem (categorized msgs)) = [0..<length msgs]"
  by (rule nth_equalityI) (simp_all add: length_categorized compressItem_fields nth_categorized)

lemma sort_filter_compressed:
  "sort_key index (filter P (map compressItem (categorized msgs)))
     = filter P (map compressItem (categorized msgs))"
proof (rule sort_key_id_if_sorted)
  have "sorted (map index (map compressItem (categorized msgs)))"
    by (simp only: map_index_compressed sorted_upt)
  then show "sorted (map index (filter P (map compressItem (categorized msgs))))"
    by (rule sorted_filter)
qed

lemma truncate_messages:
  "messages (truncateMessagesSmart msgs model targetTokens) = msgs
   \<or> (\<exists>K. mustKeepSet (map compressItem (categorized msgs)) \<subseteq> K
          \<and> messages (truncateMessagesSmart msgs model targetTokens)
              = map msg (filter (\<lambda>it. index it \<in> K) (map compressItem (categorized msgs))))"
proof -
  define C where "C = map compressItem (categorized msgs)"
  define target where
    "target = (case targetTokens of Some t \<Rightarrow> t | None \<Rightarrow> getDynamicTargetLimit model)"
  define avail where
    "avail = minusNum target (sum_list (map tokens (filter (\<lambda>it. index it \<in> mustKeepSet C) C)))"
  define K where
    "K = mustKeepSet C \<union> pickRegular avail
           (rev (filter (\<lambda>it. index it \<notin> mustKeepSet C \<and> category it = CatRegular) C)) 0 {}"
  consider (within) "leNum (sum_list (map estimateMessageTokens msgs)) target"
    | (compressed) "\<not> leNum (sum_list (map estimateMessageTokens msgs)) target"
        "leNum (sum_list (map tokens C)) target"
    | (selected) "\<not> leNum (sum_list (map estimateMessageTokens msgs)) target"
        "\<not> leNum (sum_list (map tokens C)) target"
    by blast
  then show ?thesis
  proof cases
    case within
    then show ?thesis by (simp add: truncateMessagesSmart_def target_def Let_def)
  next
    case compressed
    then have "messages (truncateMessagesSmart msgs model targetTokens) = map msg C"
      by (simp add: truncateMessagesSmart_def target_def C_def Let_def)
    then have "messages (truncateMessagesSmart msgs model targetTokens)
                 = map msg (filter (\<lambda>it. index it \<in> UNIV) C)" by simp
    then show ?thesis unfolding C_def by blast
  next
    case selected
    then have "messages (truncateMessagesSmart msgs model targetTokens)
                 = map msg (sort_key index (filter (\<lambda>it. index it \<in> K) C))"
      by (simp add: truncateMessagesSmart_def target_def C_def K_def avail_def Let_def)
    then have "messages (truncateMessagesSmart msgs model targetTokens)
                 = map msg (filter (\<lambda>it. index it \<in> K) C)"
      unfolding C_def by (simp only: sort_filter_compressed)
    moreover have "mustKeepSet C \<subseteq> K" by (simp add: K_def)
    ultimately show ?thesis unfolding C_def by blast
  qed
qed

lemma compressItem_msg:
  "msg (compressItem it) = msg it
   \<or> (role (msg it) = Tool \<and> msg (compressItem it) = compressToolResult (msg it) 8000)"
  by (simp add: compressItem_def Let_def)

lemma compressItem_msg_other: "role (msg it) \<noteq> Tool \<Longrightarrow> msg (compressItem it) = msg it"
  by (simp add: compressItem_def)

lemma compressed_nth:
  assumes "i < length msgs"
  shows "map compressItem (categorized msgs) ! i
           = compressItem \<lparr> msg = msgs ! i, category = categorizeMessage (msgs ! i),
                             tokens = estimateMessageTokens (msgs ! i), index = i \<rparr>"
  using assms by (simp add: length_categorized nth_categorized)

lemma compressed_item:
  assumes "it \<in> set (map compressItem (categorized msgs))"
  shows "index it < length msgs \<and> fitted (msg it) (msgs ! index it)
         \<and> role (msg it) = role (msgs ! index it)
         \<and> category it = categorizeMessage (msgs ! index it)
         \<and> it = map compressItem (categorized msgs) ! index it"
proof -
  from assms obtain i where i: "i < length msgs" "it = map compressItem (categorized msgs) ! i"
    by (auto simp: in_set_conv_nth length_categorized)
  have ix: "index it = i" using i compressed_fields(1) by simp
  have "fitted (msg it) (msgs ! i)"
    unfolding i(2) compressed_nth[OF i(1)] fitted_def
    using compressItem_msg[of "\<lparr> msg = msgs ! i, category = categorizeMessage (msgs ! i),
                             tokens = estimateMessageTokens (msgs ! i), index = i \<rparr>"]
    by simp
  with i ix compressed_fields(2,3)[OF i(1)] show ?thesis by simp
qed

lemma originals_of_compressed:
  "map (\<lambda>it. msgs ! index it) (map compressItem (categorized msgs)) = msgs"
  by (rule nth_equalityI)
     (simp_all add: length_categorized compressItem_fields nth_categorized)

lemma fitted_subseq:
  fixes msgs K
  defines "F \<equiv> filter (\<lambda>it. index it \<in> K) (map compressItem (categorized msgs))"
  shows "subseq (map (\<lambda>it. msgs ! index it) F) msgs
         \<and> list_all2 fitted (map msg F) (map (\<lambda>it. msgs ! index it) F)"
proof
  have "subseq (map (\<lambda>it. msgs ! index it) F)
          (map (\<lambda>it. msgs ! index it) (map compressItem (categorized msgs)))"
    unfolding F_def by (intro subseq_map subseq_filter_left)
  then show "subseq (map (\<lambda>it. msgs ! index it) F) msgs"
    by (simp only: originals_of_compressed)
  have "\<forall>it \<in> set F. fitted (msg it) (msgs ! index it)"
  proof
    fix it assume "it \<in> set F"
    then have "it \<in> set (map compressItem (categorized msgs))" unfolding F_def by simp
    from compressed_item[OF this] show "fitted (msg it) (msgs ! index it)" by blast
  qed
  then show "list_all2 fitted (map msg F) (map (\<lambda>it. msgs ! index it) F)"
    by (simp only: list_all2_map1 list_all2_map2 list_all2_same)
qed

lemma keepSystem_foldl:
  "foldl (\<lambda>keep it. if category it = CatSystem then insert (index it) keep else keep) keep items
     = keep \<union> index ` {it \<in> set items. category it = CatSystem}"
  by (induction items arbitrary: keep) auto

lemma keepSystem_set: "keepSystem items = index ` {it \<in> set items. category it = CatSystem}"
  by (simp add: keepSystem_def keepSystem_foldl)

lemma keepLastUser_mono: "keep \<subseteq> keepLastUser items n keep"
  by (induction n) auto

lemma keepLastUser_last:
  "i < n \<Longrightarrow> role (msg (items ! i)) = User
   \<Longrightarrow> (\<forall>j. i < j \<and> j < n \<longrightarrow> role (msg (items ! j)) \<noteq> User)
   \<Longrightarrow> index (items ! i) \<in> keepLastUser items n keep"
proof (induction n)
  case 0
  then show ?case by simp
next
  case (Suc n)
  show ?case
  proof (cases "i = n")
    case True
    with Suc.prems show ?thesis by simp
  next
    case False
    with Suc.prems have "i < n" by simp
    moreover from this Suc.prems(3) have "role (msg (items ! n)) \<noteq> User" by simp
    moreover from Suc.prems(3) have "\<forall>j. i < j \<and> j < n \<longrightarrow> role (msg (items ! j)) \<noteq> User"
      by simp
    ultimately show ?thesis using Suc.IH Suc.prems(2) by simp
  qed
qed

lemma system_in_mustKeep:
  "it \<in> set items \<Longrightarrow> category it = CatSystem \<Longrightarrow> index it \<in> mustKeepSet items"
proof -
  assume "it \<in> set items" "category it = CatSystem"
  then have "index it \<in> keepSystem items" by (auto simp: keepSystem_set)
  then show ?thesis
    using keepLastUser_mono[of "keepSystem items \<union> toolChain items" items "length items"]
    by (auto simp: mustKeepSet_parts)
qed

lemma category_system: "categorizeMessage m = CatSystem \<longleftrightarrow> role m = System"
  unfolding categorizeMessage_def by (cases "role m") simp_all

lemma fitted_other: "fitted out inp \<Longrightarrow> role inp \<noteq> Tool \<Longrightarrow> out = inp"
  by (auto simp: fitted_def)

lemma kept_systems:
  assumes K: "mustKeepSet (map compressItem (categorized msgs)) \<subseteq> K"
  shows "filter (\<lambda>m. role m = System)
           (map msg (filter (\<lambda>it. index it \<in> K) (map compressItem (categorized msgs))))
         = filter (\<lambda>m. role m = System) msgs"
proof -
  define C where "C = map compressItem (categorized msgs)"
  have item: "index it < length msgs \<and> fitted (msg it) (msgs ! index it)
         \<and> role (msg it) = role (msgs ! index it)
         \<and> category it = categorizeMessage (msgs ! index it)" if "it \<in> set C" for it
    using compressed_item[of it msgs] that unfolding C_def by blast
  have sysK: "index it \<in> K" if "it \<in> set C" "role (msg it) = System" for it
  proof -
    from item[OF that(1)] that(2) have "category it = CatSystem"
      by (simp add: category_system)
    with that(1) have "index it \<in> mustKeepSet C" by (rule system_in_mustKeep)
    with K show ?thesis unfolding C_def by blast
  qed
  have same: "msg it = msgs ! index it" if "it \<in> set C" "role (msg it) = System" for it
  proof -
    from item[OF that(1)] that(2) have "fitted (msg it) (msgs ! index it)"
      and "role (msgs ! index it) \<noteq> Tool" by simp_all
    then show ?thesis by (rule fitted_other)
  qed
  have "filter (\<lambda>m. role m = System) (map msg (filter (\<lambda>it. index it \<in> K) C))
          = map msg (filter (\<lambda>it. role (msg it) = System \<and> index it \<in> K) C)"
    by (simp add: filter_map comp_def conj_commute)
  also have "filter (\<lambda>it. role (msg it) = System \<and> index it \<in> K) C
          = filter (\<lambda>it. role (msgs ! index it) = System) C"
    by (rule filter_cong[OF refl]) (use item sysK in auto)
  also have "map msg (filter (\<lambda>it. role (msgs ! index it) = System) C)
          = map (\<lambda>it. msgs ! index it) (filter (\<lambda>it. role (msgs ! index it) = System) C)"
  proof (rule map_cong[OF refl])
    fix it assume "it \<in> set (filter (\<lambda>it. role (msgs ! index it) = System) C)"
    then have "it \<in> set C" "role (msgs ! index it) = System" by simp_all
    with item[of it] have "role (msg it) = System" by simp
    with \<open>it \<in> set C\<close> show "msg it = msgs ! index it" by (rule same)
  qed
  also have "\<dots> = filter (\<lambda>m. role m = System) (map (\<lambda>it. msgs ! index it) C)"
    by (simp add: filter_map comp_def)
  also have "\<dots> = filter (\<lambda>m. role m = System) msgs"
    unfolding C_def by (simp only: originals_of_compressed)
  finally show ?thesis unfolding C_def .
qed

lemma kept_last_user:
  assumes K: "mustKeepSet (map compressItem (categorized msgs)) \<subseteq> K"
    and i: "i < length msgs" "role (msgs ! i) = User"
    and last: "\<forall>j. i < j \<and> j < length msgs \<longrightarrow> role (msgs ! j) \<noteq> User"
  shows "msgs ! i \<in> set (map msg (filter (\<lambda>it. index it \<in> K) (map compressItem (categorized msgs))))"
proof -
  define C where "C = map compressItem (categorized msgs)"
  have len: "length C = length msgs" by (simp add: C_def length_categorized)
  have fld: "index (C ! j) = j" "role (msg (C ! j)) = role (msgs ! j)" if "j < length msgs" for j
    unfolding C_def using compressed_fields(1,3)[OF that] by simp_all
  have "index (C ! i) \<in> keepLastUser C (length C) (keepSystem C \<union> toolChain C)"
  proof (rule keepLastUser_last)
    show "i < length C" using i(1) len by simp
    show "role (msg (C ! i)) = User" using fld(2)[OF i(1)] i(2) by simp
    show "\<forall>j. i < j \<and> j < length C \<longrightarrow> role (msg (C ! j)) \<noteq> User"
      using last fld(2) len by simp
  qed
  then have "i \<in> mustKeepSet C" by (simp add: mustKeepSet_parts fld(1)[OF i(1)])
  with K have iK: "index (C ! i) \<in> K" unfolding C_def[symmetric] using fld(1)[OF i(1)] by auto
  have mem: "C ! i \<in> set C" using i(1) len by simp
  from compressed_item[of "C ! i" msgs] mem fld(1)[OF i(1)]
  have "fitted (msg (C ! i)) (msgs ! i)" unfolding C_def by simp
  then have "msg (C ! i) = msgs ! i" by (rule fitted_other) (simp add: i(2))
  moreover from mem iK have "C ! i \<in> set (filter (\<lambda>it. index it \<in> K) C)" by simp
  ultimately have "msgs ! i \<in> msg ` set (filter (\<lambda>it. index it \<in> K) C)" by (metis imageI)
  then show ?thesis unfolding C_def by simp
qed

text \<open>
  Claim C5, as the code has it. The output of the budget fitter is a subsequence of the
  input in original order in which some oversized tool responses have been replaced by their
  compressed versions: it matches, message for message, a subsequence of the input, each
  output message being the input message itself or the compression of a tool response.
  The system messages of the input are all present, unchanged and in order, and so is the
  most recent user message.
\<close>

theorem truncateMessagesSmart_output:
  "(\<exists>sub. subseq sub msgs
          \<and> list_all2 fitted (messages (truncateMessagesSmart msgs model targetTokens)) sub)
   \<and> filter (\<lambda>m. role m = System) (messages (truncateMessagesSmart msgs model targetTokens))
       = filter (\<lambda>m. role m = System) msgs
   \<and> (\<forall>i<length msgs.
          role (msgs ! i) = User \<and> (\<forall>j. i < j \<and> j < length msgs \<longrightarrow> role (msgs ! j) \<noteq> User)
          \<longrightarrow> msgs ! i \<in> set (messages (truncateMessagesSmart msgs model targetTokens)))"
proof -
  let ?out = "messages (truncateMessagesSmart msgs model targetTokens)"
  from truncate_messages[of msgs model targetTokens]
  consider (same) "?out = msgs"
    | (kept) K where "mustKeepSet (map compressItem (categorized msgs)) \<subseteq> K"
        "?out = map msg (filter (\<lambda>it. index it \<in> K) (map compressItem (categorized msgs)))"
    by blast
  then show ?thesis
  proof cases
    case same
    have "list_all2 fitted msgs msgs" by (simp add: list_all2_same fitted_def)
    then have "\<exists>sub. subseq sub msgs \<and> list_all2 fitted msgs sub" by blast
    then show ?thesis unfolding same by simp
  next
    case kept
    from fitted_subseq[of msgs K]
    have "\<exists>sub. subseq sub msgs \<and> list_all2 fitted ?out sub" unfolding kept(2) by blast
    moreover have "filter (\<lambda>m. role m = System) ?out = filter (\<lambda>m. role m = System) msgs"
      unfolding kept(2) using kept(1) by (rule kept_systems)
    moreover have "\<forall>i<length msgs.
          role (msgs ! i) = User \<and> (\<forall>j. i < j \<and> j < length msgs \<longrightarrow> role (msgs ! j) \<noteq> User)
          \<longrightarrow> msgs ! i \<in> set ?out"
      unfolding kept(2) using kept_last_user[OF kept(1)] by blast
    ultimately show ?thesis by blast
  qed
qed

lemma longText_simps:
  "length (longText n) = n"
  "take k (longText n) = longText (min k n)"
  "drop k (longText n) = longText (n - k)"
  by (simp_all add: longText_def)

lemma estimate_toolMsg:
  "i \<noteq> [] \<Longrightarrow> estimateMessageTokens (toolMsg i t) = (length t + length i + 3) div 4 + 4"
  by (simp add: estimate_div messageText_def contentText_def toolMsg_def isToolResponse_def
      truthy_def)

lemma scenario5_floors:
  "\<lfloor>fmul (fmul 40000 (fdiv 8000 10005)) (double (9 / 10))\<rfloor> = 28785"
  "\<lfloor>fmul 28785 (double (6 / 10))\<rfloor> = 17271"
  "\<lfloor>fmul 28785 (double (3 / 10))\<rfloor> = 8635"
  by code_simp+

lemma scenario5_lengths:
  "targetLengthOf 40000 8000 10005 = 28785"
  "headLengthOf 28785 = 17271"
  "tailLengthOf 28785 = 8635"
  unfolding targetLengthOf_def headLengthOf_def tailLengthOf_def Let_def of_nat_numeral
    of_int_numeral scenario5_floors by (rule refl)+

lemma digits_14094: "showInt 14094 = js ''14094''"
  by (simp add: showInt_def digits.simps js_simps)

lemma scenario5_compressed:
  "compressToolResult (toolMsg (js ''a'') (longText 40000)) 8000
     = toolMsg (js ''a'')
         (longText 17271 @ markerPrefix @ js ''14094'' @ markerSuffix @ longText 8635)"
proof -
  have e: "estimateMessageTokens (toolMsg (js ''a'') (longText 40000)) = 10005"
    by (simp add: estimate_toolMsg longText_simps)
  have c: "content (toolMsg (js ''a'') (longText 40000)) = Str (longText 40000)"
    by (simp add: toolMsg_def)
  show ?thesis
    unfolding compressToolResult_def Let_def e c
    by (simp add: longText_simps scenario5_lengths digits_14094 slice_def sliceFrom_def
        sliceIndex_def toolMsg_def)
qed

lemma marker_lengths: "length markerPrefix = 18" "length markerSuffix = 10"
  by (simp_all add: markerPrefix_def markerSuffix_def)

lemma scenario5_estimates:
  "estimateMessageTokens (toolMsg (js ''a'') (longText 40000)) = 10005"
  "estimateMessageTokens (toolMsg (js ''a'')
         (longText 17271 @ markerPrefix @ js ''14094'' @ markerSuffix @ longText 8635)) = 6489"
  by (simp_all add: estimate_toolMsg longText_simps marker_lengths)

lemma scenario5_truncated:
  "truncateMessagesSmart scenario5 (js ''gpt-4o'') (Some (Num 9000))
     = \<lparr> messages = [toolMsg (js ''a'')
                        (longText 17271 @ markerPrefix @ js ''14094'' @ markerSuffix
                         @ longText 8635)],
         originalTokens = 10005, truncatedTokens = 6489, removedCount = 0,
         compressedCount = 1 \<rparr>"
proof -
  have r: "role (toolMsg i t) = Tool" for i t by (simp add: toolMsg_def)
  have items: "categorized scenario5
      = [\<lparr> msg = toolMsg (js ''a'') (longText 40000), category = CatToolContext,
           tokens = 10005, index = 0 \<rparr>]"
    by (simp add: categorized_def scenario5_def scenario5_estimates small_categories)
  have orig: "sum_list (map estimateMessageTokens scenario5) = 10005"
    by (simp add: scenario5_def scenario5_estimates)
  have cmp: "compressible \<lparr> msg = toolMsg (js ''a'') (longText 40000), category = CatToolContext,
           tokens = 10005, index = 0 \<rparr>"
    by (simp add: compressible_def r scenario5_compressed scenario5_estimates)
  have ci: "compressItem \<lparr> msg = toolMsg (js ''a'') (longText 40000), category = CatToolContext,
           tokens = 10005, index = 0 \<rparr>
      = \<lparr> msg = toolMsg (js ''a'')
                 (longText 17271 @ markerPrefix @ js ''14094'' @ markerSuffix @ longText 8635),
          category = CatToolContext, tokens = 6489, index = 0 \<rparr>"
    by (simp add: compressItem_def r scenario5_compressed scenario5_estimates)
  show ?thesis
    unfolding truncateMessagesSmart_def Let_def orig items
    by (simp add: leNum_def cmp ci)
qed

text \<open>
  The claim as stated makes the output a subsequence of the input. For the single tool
  response of scenario 5 and a target of 9000 tokens, the compression pass brings the
  estimate from 10005 down to 6489 and the fitter returns the compressed message, which is
  not a message of the input.
\<close>

theorem truncateMessagesSmart_compression_counterexample:
  "\<not> subseq (messages (truncateMessagesSmart scenario5 (js ''gpt-4o'') (Some (Num 9000))))
       scenario5"
proof -
  have "length (longText 17271 @ markerPrefix @ js ''14094'' @ markerSuffix @ longText 8635)
          \<noteq> length (longText 40000)"
    by (simp add: longText_simps marker_lengths)
  then have "longText 17271 @ markerPrefix @ js ''14094'' @ markerSuffix @ longText 8635
          \<noteq> longText 40000" by metis
  then have "toolMsg (js ''a'')
                (longText 17271 @ markerPrefix @ js ''14094'' @ markerSuffix @ longText 8635)
          \<noteq> toolMsg (js ''a'') (longText 40000)"
    by (simp add: toolMsg_def)
  then show ?thesis
    unfolding scenario5_truncated by (simp add: scenario5_def subseq_singleton_left)
qed

theorem truncateMessagesSmart_output_witness:
  "role (chainThenUser ! 3) = User
   \<and> chainThenUser ! 3
       \<in> set (messages (truncateMessagesSmart chainThenUser (js ''gpt-4o'') (Some (Num 0))))
   \<and> (\<exists>sub. subseq sub scenario5
          \<and> list_all2 fitted
                [toolMsg (js ''a'')
                   (longText 17271 @ markerPrefix @ js ''14094'' @ markerSuffix @ longText 8635)]
                sub)"
proof -
  have len: "length chainThenUser = 4" by (simp add: chainThenUser_def)
  have u: "role (chainThenUser ! 3) = User" by (simp add: chainThenUser_def userMsg_def)
  have l: "\<forall>j. 3 < j \<and> j < length chainThenUser \<longrightarrow> role (chainThenUser ! j) \<noteq> User"
  proof (intro allI impI)
    fix j assume "3 < j \<and> j < length chainThenUser"
    then have False using len by arith
    then show "role (chainThenUser ! j) \<noteq> User" ..
  qed
  from truncateMessagesSmart_output[of chainThenUser "js ''gpt-4o''" "Some (Num 0)"] len u l
  have a: "chainThenUser ! 3
       \<in> set (messages (truncateMessagesSmart chainThenUser (js ''gpt-4o'') (Some (Num 0))))"
    by simp
  from truncateMessagesSmart_output[of scenario5 "js ''gpt-4o''" "Some (Num 9000)"]
  have "\<exists>sub. subseq sub scenario5
          \<and> list_all2 fitted
                (messages (truncateMessagesSmart scenario5 (js ''gpt-4o'') (Some (Num 9000)))) sub"
    by (rule conjunct1)
  then have "\<exists>sub. subseq sub scenario5
          \<and> list_all2 fitted
                [toolMsg (js ''a'')
                   (longText 17271 @ markerPrefix @ js ''14094'' @ markerSuffix @ longText 8635)]
                sub"
    unfolding scenario5_truncated by simp
  with u a show ?thesis by blast
qed

subsection \<open>Repairing a repaired conversation\<close>

lemma rebuild_append: "rebuild mp (xs @ ys) = rebuild mp xs @ rebuild mp ys"
  by (induction xs) simp_all

lemma rebuild_tools: "(\<forall>r \<in> set xs. role r = Tool) \<Longrightarrow> rebuild mp xs = []"
  by (induction xs) simp_all

lemma foldl_setResponse_last:
  assumes "r \<in> set msgs" "isToolResponse r" "tool_call_id r = Some k"
    and "\<forall>r' \<in> set msgs. isToolResponse r' \<and> tool_call_id r' = Some k \<longrightarrow> r' = r"
  shows "foldl setResponse mp msgs k = Some r"
  using assms
proof (induction msgs arbitrary: mp rule: rev_induct)
  case Nil
  then show ?case by simp
next
  case (snoc m ms)
  show ?case
  proof (cases "isToolResponse m \<and> tool_call_id m = Some k")
    case True
    with snoc.prems(4) have "m = r" by simp
    with True show ?thesis by (simp add: setResponse_def)
  next
    case False
    from snoc.prems(1) have "r = m \<or> r \<in> set ms" by simp
    moreover have "r \<noteq> m" using False snoc.prems(2,3) by blast
    ultimately have "r \<in> set ms" by blast
    moreover from snoc.prems(4)
    have "\<forall>r' \<in> set ms. isToolResponse r' \<and> tool_call_id r' = Some k \<longrightarrow> r' = r" by simp
    ultimately have "foldl setResponse mp ms k = Some r"
      using snoc.IH snoc.prems(2,3) by blast
    then have "foldl setResponse mp ms k = Some r" .
    moreover have "setResponse mp' m k = mp' k" for mp'
      using False by (auto simp: setResponse_def split: option.splits)
    ultimately show ?thesis by simp
  qed
qed

lemma answers_nth:
  "answers tcs rs \<Longrightarrow> j < length tcs \<Longrightarrow>
   role (rs ! j) = Tool \<and> tool_call_id (rs ! j) = Some (id_tc (tcs ! j))"
proof -
  assume a: "answers tcs rs" and j: "j < length tcs"
  from a have l: "length rs = length tcs" by (rule answers_length)
  from a have "map (\<lambda>r. (role r, tool_call_id r)) rs ! j = map (\<lambda>tc. (Tool, Some (id_tc tc))) tcs ! j"
    by (simp only: answers_def)
  with j l show ?thesis by simp
qed

lemma rebuild_repaired:
  assumes "\<forall>r \<in> set msgs. role r = Tool \<longrightarrow> (\<exists>k. tool_call_id r = Some k \<and> mp k = Some r)"
  shows "repaired msgs \<Longrightarrow> rebuild mp msgs = msgs"
  using assms
proof (induction msgs rule: repaired.induct)
  case 1
  then show ?case by simp
next
  case (2 m ms)
  from "2.prems"(1) have nt: "role m \<noteq> Tool" by simp
  show ?case
  proof (cases "hasToolCalls m")
    case True
    let ?n = "length (calls m)"
    from "2.prems"(1) True have a: "answers (calls m) (take ?n ms)"
      and r: "repaired (drop ?n ms)" by simp_all
    have len: "length (take ?n ms) = ?n" using answers_length[OF a] .
    have sub: "\<forall>r \<in> set (drop ?n ms). role r = Tool \<longrightarrow> (\<exists>k. tool_call_id r = Some k \<and> mp k = Some r)"
    proof (intro ballI impI)
      fix r assume "r \<in> set (drop ?n ms)" "role r = Tool"
      from this(1) have "r \<in> set (m # ms)" by (simp add: in_set_dropD)
      with "2.prems"(2) \<open>role r = Tool\<close>
      show "\<exists>k. tool_call_id r = Some k \<and> mp k = Some r" by blast
    qed
    have ih: "rebuild mp (drop ?n ms) = drop ?n ms"
      using "2.IH"(1)[OF True r sub] .
    have tools: "\<forall>r \<in> set (take ?n ms). role r = Tool"
      using answers_role[OF a] by blast
    have "rebuild mp ms = rebuild mp (take ?n ms @ drop ?n ms)" by simp
    also have "\<dots> = drop ?n ms"
      by (simp only: rebuild_append rebuild_tools[OF tools] ih append_Nil)
    finally have rest: "rebuild mp ms = drop ?n ms" .
    have resp: "map (responseFor mp) (calls m) = take ?n ms"
    proof (rule nth_equalityI)
      show "length (map (responseFor mp) (calls m)) = length (take ?n ms)" using len by simp
    next
      fix j assume "j < length (map (responseFor mp) (calls m))"
      then have j: "j < ?n" by simp
      from answers_nth[OF a j]
      have t: "role (take ?n ms ! j) = Tool"
        "tool_call_id (take ?n ms ! j) = Some (id_tc (calls m ! j))" by simp_all
      have "j < length (take ?n ms)" using j len by simp
      then have "take ?n ms ! j \<in> set (take ?n ms)" by (rule nth_mem)
      then have "take ?n ms ! j \<in> set ms" by (rule in_set_takeD)
      then have "take ?n ms ! j \<in> set (m # ms)" by simp
      with "2.prems"(2) t obtain k where "tool_call_id (take ?n ms ! j) = Some k"
        "mp k = Some (take ?n ms ! j)" by blast
      with t(2) have "mp (id_tc (calls m ! j)) = Some (take ?n ms ! j)" by simp
      with j show "map (responseFor mp) (calls m) ! j = take ?n ms ! j"
        by (simp add: responseFor_def)
    qed
    from nt True rest resp show ?thesis by simp
  next
    case False
    from "2.prems"(1) False have r: "repaired ms" by simp
    have sub: "\<forall>r \<in> set ms. role r = Tool \<longrightarrow> (\<exists>k. tool_call_id r = Some k \<and> mp k = Some r)"
      using "2.prems"(2) by simp
    from "2.IH"(2)[OF False r sub] nt False show ?thesis by simp
  qed
qed

lemma repaired_tool_ids:
  "repaired msgs \<Longrightarrow> r \<in> set msgs \<Longrightarrow> role r = Tool \<Longrightarrow>
   \<exists>m \<in> set msgs. hasToolCalls m \<and> (\<exists>tc \<in> set (calls m). tool_call_id r = Some (id_tc tc))"
proof (induction msgs rule: repaired.induct)
  case 1
  then show ?case by simp
next
  case (2 m ms)
  from "2.prems"(1) have nt: "role m \<noteq> Tool" by simp
  with "2.prems"(2,3) have rms: "r \<in> set ms" by auto
  show ?case
  proof (cases "hasToolCalls m")
    case True
    let ?n = "length (calls m)"
    from "2.prems"(1) True have a: "answers (calls m) (take ?n ms)"
      and rp: "repaired (drop ?n ms)" by simp_all
    have len: "length (take ?n ms) = ?n" using answers_length[OF a] .
    have "set ms = set (take ?n ms) \<union> set (drop ?n ms)"
      by (simp only: set_append[symmetric] append_take_drop_id)
    with rms consider "r \<in> set (take ?n ms)" | "r \<in> set (drop ?n ms)" by blast
    then show ?thesis
    proof cases
      case 1
      then obtain j where j: "j < length (take ?n ms)" "take ?n ms ! j = r"
        by (auto simp: in_set_conv_nth)
      from j(1) len have jn: "j < ?n" by simp
      from answers_nth[OF a jn] j(2) have "tool_call_id r = Some (id_tc (calls m ! j))" by simp
      moreover have "calls m ! j \<in> set (calls m)" using jn by simp
      ultimately show ?thesis using True by auto
    next
      case 2
      from "2.IH"(1)[OF True rp 2 "2.prems"(3)]
      obtain m' where m': "m' \<in> set (drop ?n ms)" "hasToolCalls m'"
        "\<exists>tc \<in> set (calls m'). tool_call_id r = Some (id_tc tc)" by blast
      from m'(1) have "m' \<in> set (m # ms)" by (simp add: in_set_dropD)
      with m'(2,3) show ?thesis by blast
    qed
  next
    case False
    from "2.prems"(1) False have rp: "repaired ms" by simp
    from "2.IH"(2)[OF False rp rms "2.prems"(3)]
    obtain m' where "m' \<in> set ms" "hasToolCalls m'"
      "\<exists>tc \<in> set (calls m'). tool_call_id r = Some (id_tc tc)" by blast
    then show ?thesis by auto
  qed
qed

text \<open>
  Claim C6, as the code has it. A message list that is already sanitized and already
  repaired, and in which two tool messages with the same \<open>tool_call_id\<close> are the same message
  (as they are when all call ids are distinct), is returned unchanged by
  \<open>fixToolCallsMessages\<close>.
\<close>

theorem fixToolCallsMessages_idempotent:
  assumes "sanitizedIds msgs"
    and "followedByResponses msgs" and "responsesOnlyAfterCalls msgs"
    and "sameIdSameResponse msgs"
  shows "fixToolCallsMessages msgs = msgs"
proof -
  from assms(2,3) have rp: "repaired msgs" by (simp add: repaired_iff)
  have "\<exists>k. tool_call_id r = Some k \<and> toolResponseMap msgs k = Some r"
    if r: "r \<in> set msgs" "role r = Tool" for r
  proof -
    from repaired_tool_ids[OF rp r]
    obtain m tc where m: "m \<in> set msgs" "hasToolCalls m" "tc \<in> set (calls m)"
      "tool_call_id r = Some (id_tc tc)" by blast
    from assms(1) m(1,2,3) have "cleanId (id_tc tc)" by (simp add: sanitizedIds_def)
    then have "id_tc tc \<noteq> []" by (simp add: cleanId_def)
    with m(4) r(2) have tr: "isToolResponse r" by (simp add: isToolResponse_def truthy_def)
    have "\<forall>r' \<in> set msgs. isToolResponse r' \<and> tool_call_id r' = Some (id_tc tc) \<longrightarrow> r' = r"
    proof (intro ballI impI)
      fix r' assume r': "r' \<in> set msgs" "isToolResponse r' \<and> tool_call_id r' = Some (id_tc tc)"
      then have "role r' = Tool" "tool_call_id r' = tool_call_id r"
        using m(4) by (simp_all add: isToolResponse_def)
      with assms(4) r r'(1) show "r' = r" unfolding sameIdSameResponse_def by blast
    qed
    with r(1) tr m(4) have "toolResponseMap msgs (id_tc tc) = Some r"
      unfolding toolResponseMap_def by (intro foldl_setResponse_last)
    with m(4) show ?thesis by blast
  qed
  then have "\<forall>r \<in> set msgs. role r = Tool \<longrightarrow>
               (\<exists>k. tool_call_id r = Some k \<and> toolResponseMap msgs k = Some r)" by blast
  then show ?thesis
    unfolding fixToolCallsMessages_def using rp by (rule rebuild_repaired)
qed

lemma clean_a: "cleanId (js ''a'')" "cleanId (js ''b'')"
  by (simp_all add: cleanId_def keptChar_def wordChar_def js_simps)

lemma sharedCallId_fixed:
  "fixToolCallsMessages sharedCallId
     = [assistantCalls [callOf (js ''a'') (js ''read'')],
        placeholderResponse (callOf (js ''a'') (js ''read'')),
        assistantCalls [callOf (js ''a'') (js ''write'')],
        placeholderResponse (callOf (js ''a'') (js ''write''))]"
  by (simp add: fixToolCallsMessages_def toolResponseMap_def setResponse_def sharedCallId_def
      assistantCalls_def isToolResponse_def hasToolCalls_def calls_def responseFor_def)

lemma placeholder_fields:
  "role (placeholderResponse tc) = Tool"
  "tool_call_id (placeholderResponse tc) = Some (id_tc tc)"
  "calls (placeholderResponse tc) = []"
  by (simp_all add: placeholderResponse_def calls_def)

lemma placeholders_differ:
  "placeholderResponse (callOf (js ''a'') (js ''read''))
     \<noteq> placeholderResponse (callOf (js ''a'') (js ''write''))"
proof -
  have "toolName (callOf (js ''a'') (js ''read'')) = js ''read''"
    "toolName (callOf (js ''a'') (js ''write'')) = js ''write''"
    by (simp_all add: toolName_def callOf_def)
  moreover have "quoteJSONString (js ''read'') \<noteq> quoteJSONString (js ''write'')"
    by (simp add: quoteJSONString_def quoteUnit_def isLead_def isTrail_def js_simps)
  ultimately show ?thesis by (simp add: placeholderResponse_def)
qed

lemma sharedCallId_refixed:
  "fixToolCallsMessages (fixToolCallsMessages sharedCallId)
     = [assistantCalls [callOf (js ''a'') (js ''read'')],
        placeholderResponse (callOf (js ''a'') (js ''write'')),
        assistantCalls [callOf (js ''a'') (js ''write'')],
        placeholderResponse (callOf (js ''a'') (js ''write''))]"
proof -
  have a: "role (assistantCalls tcs) = Assistant" "calls (assistantCalls tcs) = tcs"
    "tool_call_id (assistantCalls tcs) = None" for tcs
    by (simp_all add: assistantCalls_def calls_def)
  have i: "id_tc (callOf i f) = i" for i f by (simp add: callOf_def)
  show ?thesis
    unfolding sharedCallId_fixed
    by (simp add: fixToolCallsMessages_def toolResponseMap_def setResponse_def isToolResponse_def
        truthy_def hasToolCalls_def responseFor_def placeholder_fields a i)
qed

text \<open>
  The claim as stated covers every sanitized list that satisfies the ordering invariant.
  The repairer's own output for \<open>sharedCallId\<close>, two assistant messages whose calls share the
  id \<open>a\<close>, is such a list: each call is followed by its placeholder. Repairing it again files
  both placeholders under \<open>a\<close>, the later one wins, and the first placeholder, which names
  the tool \<open>read\<close>, is replaced by the one that names \<open>write\<close>.
\<close>

theorem fixToolCallsMessages_idempotent_counterexample:
  "sanitizedIds (fixToolCallsMessages sharedCallId)
   \<and> followedByResponses (fixToolCallsMessages sharedCallId)
   \<and> responsesOnlyAfterCalls (fixToolCallsMessages sharedCallId)
   \<and> fixToolCallsMessages (fixToolCallsMessages sharedCallId)
       \<noteq> fixToolCallsMessages sharedCallId"
proof -
  have a: "role (assistantCalls tcs) = Assistant" "calls (assistantCalls tcs) = tcs"
    "tool_call_id (assistantCalls tcs) = None" for tcs
    by (simp_all add: assistantCalls_def calls_def)
  have i: "id_tc (callOf i f) = i" for i f by (simp add: callOf_def)
  have s: "sanitizedIds (fixToolCallsMessages sharedCallId)"
    unfolding sharedCallId_fixed
    by (simp add: sanitizedIds_def hasToolCalls_def isToolResponse_def placeholder_fields a i
        clean_a)
  have "repaired (fixToolCallsMessages sharedCallId)" by (rule repaired_fix)
  then have f: "followedByResponses (fixToolCallsMessages sharedCallId)"
    and o: "responsesOnlyAfterCalls (fixToolCallsMessages sharedCallId)"
    by (simp_all add: repaired_iff)
  have "fixToolCallsMessages (fixToolCallsMessages sharedCallId)
       \<noteq> fixToolCallsMessages sharedCallId"
    unfolding sharedCallId_refixed unfolding sharedCallId_fixed
    using placeholders_differ by simp
  with s f o show ?thesis by simp
qed

theorem fixToolCallsMessages_idempotent_witness:
  "sanitizedIds (fixToolCallsMessages scenario2)
   \<and> followedByResponses (fixToolCallsMessages scenario2)
   \<and> responsesOnlyAfterCalls (fixToolCallsMessages scenario2)
   \<and> sameIdSameResponse (fixToolCallsMessages scenario2)
   \<and> fixToolCallsMessages (fixToolCallsMessages scenario2) = fixToolCallsMessages scenario2"
proof -
  have a: "role (assistantCalls tcs) = Assistant" "calls (assistantCalls tcs) = tcs"
    "tool_call_id (assistantCalls tcs) = None" for tcs
    by (simp_all add: assistantCalls_def calls_def)
  have u: "role (userMsg t) = User" "calls (userMsg t) = []" for t
    by (simp_all add: userMsg_def calls_def)
  have t: "role (toolMsg k c) = Tool" "tool_call_id (toolMsg k c) = Some k"
    "calls (toolMsg k c) = []" for k c
    by (simp_all add: toolMsg_def calls_def)
  have i: "id_tc (callOf i f) = i" for i f by (simp add: callOf_def)
  have s: "sanitizedIds (fixToolCallsMessages scenario2)"
    unfolding scenario2_fixed
    by (simp add: sanitizedIds_def hasToolCalls_def isToolResponse_def truthy_def
        placeholder_fields a u t i clean_a)
  have "repaired (fixToolCallsMessages scenario2)" by (rule repaired_fix)
  then have f: "followedByResponses (fixToolCallsMessages scenario2)"
    and o: "responsesOnlyAfterCalls (fixToolCallsMessages scenario2)"
    by (simp_all add: repaired_iff)
  have d: "sameIdSameResponse (fixToolCallsMessages scenario2)"
    unfolding scenario2_fixed
    by (simp add: sameIdSameResponse_def placeholder_fields a u t i)
  from fixToolCallsMessages_idempotent[OF s f o d] s f o d show ?thesis by simp
qed

subsection \<open>Compression of a tool result\<close>

lemma longText_not_empty: "0 < n \<Longrightarrow> longText n \<noteq> []"
  by (simp add: longText_def)

lemma short_floors:
  "\<lfloor>fmul (fmul 4 (fdiv 8000 10005)) (double (9 / 10))\<rfloor> = 2"
  "\<lfloor>fmul 2 (double (6 / 10))\<rfloor> = 1"
  "\<lfloor>fmul 2 (double (3 / 10))\<rfloor> = 0"
  by code_simp+

lemma short_lengths:
  "targetLengthOf 4 8000 10005 = 2"
  "headLengthOf 2 = 1"
  "tailLengthOf 2 = 0"
  unfolding targetLengthOf_def headLengthOf_def tailLengthOf_def Let_def of_nat_numeral
    of_int_numeral short_floors by (rule refl)+

lemma compressToolResult_unchanged:
  "estimateMessageTokens m \<le> maxTokens \<Longrightarrow> compressToolResult m maxTokens = m"
  by (simp add: compressToolResult_def)

lemma compressToolResult_shape:
  assumes "content m = Str t" and "maxTokens < estimateMessageTokens m"
    and "h = headLengthOf (targetLengthOf (length t) maxTokens (estimateMessageTokens m))"
    and "l = tailLengthOf (targetLengthOf (length t) maxTokens (estimateMessageTokens m))"
    and "0 \<le> h" and "0 < l" and "l \<le> int (length t)"
  shows "compressToolResult m maxTokens
           = m\<lparr>content := Str (take (nat h) t @ markerPrefix @ showInt (int (length t) - h - l)
                                 @ markerSuffix @ drop (length t - nat l) t)\<rparr>"
  using assms
  by (simp add: compressToolResult_def Let_def slice_def sliceFrom_def sliceIndex_def
      nat_diff_distrib' min_def)

text \<open>
  Claim C8 at a failing input. The tool response \<open>shortContentLongId\<close> has string content and
  an estimate of 10005 tokens, above the ceiling of 8000. The retained length is
  \<open>floor(4 * (8000 / 10005) * 0.9) = 2\<close>, the head length \<open>floor(2 * 0.6) = 1\<close> and the tail
  length \<open>floor(2 * 0.3) = 0\<close>. The claim asks for a tail fragment of 0 characters; the
  code appends \<open>content.slice(-0)\<close>, which is the whole content \<open>abcd\<close>, after a marker that
  names 3 elided characters. The result is estimated at 10013 tokens, more than the
  original, so the compression pass of \<open>truncateMessagesSmart\<close>, the caller of
  \<open>compressToolResult\<close>, then keeps the original item.
\<close>

theorem compressToolResult_empty_tail:
  "estimateMessageTokens shortContentLongId = 10005
   \<and> tailLengthOf (targetLengthOf 4 8000 10005) = 0
   \<and> compressToolResult shortContentLongId 8000
       = toolMsg (longText 40000)
           (js ''a'' @ markerPrefix @ js ''3'' @ markerSuffix @ js ''abcd'')
   \<and> estimateMessageTokens (compressToolResult shortContentLongId 8000) = 10013
   \<and> compressItem \<lparr> msg = shortContentLongId, category = CatToolContext, tokens = 10005,
                      index = 0 \<rparr>
       = \<lparr> msg = shortContentLongId, category = CatToolContext, tokens = 10005, index = 0 \<rparr>"
proof -
  have e: "estimateMessageTokens shortContentLongId = 10005"
    by (simp add: shortContentLongId_def estimate_toolMsg longText_not_empty longText_simps)
  have c: "content shortContentLongId = Str (js ''abcd'')"
    by (simp add: shortContentLongId_def toolMsg_def)
  have d: "showInt 3 = js ''3''" by (simp add: showInt_def digits.simps js_simps)
  have l: "length (js ''abcd'') = 4" by simp
  have s: "slice (js ''abcd'') 0 1 = js ''a''" "sliceFrom (js ''abcd'') (- 0) = js ''abcd''"
    by (simp_all add: slice_def sliceFrom_def sliceIndex_def js_simps)
  have "compressToolResult shortContentLongId 8000
       = shortContentLongId\<lparr>content :=
           Str (slice (js ''abcd'') 0 1 @ markerPrefix @ showInt (int 4 - 1 - 0) @ markerSuffix
                @ sliceFrom (js ''abcd'') (- 0))\<rparr>"
    by (simp only: compressToolResult_def Let_def e c content.case l short_lengths) simp
  also have "\<dots> = toolMsg (longText 40000)
           (js ''a'' @ markerPrefix @ js ''3'' @ markerSuffix @ js ''abcd'')"
    unfolding s by (simp add: d shortContentLongId_def toolMsg_def)
  finally have r: "compressToolResult shortContentLongId 8000
       = toolMsg (longText 40000)
           (js ''a'' @ markerPrefix @ js ''3'' @ markerSuffix @ js ''abcd'')" .
  have n: "estimateMessageTokens (compressToolResult shortContentLongId 8000) = 10013"
    unfolding r by (simp add: estimate_toolMsg longText_not_empty longText_simps marker_lengths)
  have "compressItem \<lparr> msg = shortContentLongId, category = CatToolContext, tokens = 10005,
                      index = 0 \<rparr>
       = \<lparr> msg = shortContentLongId, category = CatToolContext, tokens = 10005, index = 0 \<rparr>"
    by (simp add: compressItem_def n)
  with e r n short_lengths show ?thesis by simp
qed

end
